theory Spec2Isabelle
  imports Complex_Main "HOL-Library.AList"
begin

section \<open>Segment selection in the browser client\<close>

text \<open>
  The client keeps the committed segments in React state. Times are the video element's
  \<^verbatim>\<open>currentTime\<close> readings; they are modelled as rationals (finite numbers, no NaN).
  \<^verbatim>\<open>parseFloat(x.toFixed(2))\<close> rounds to the nearest hundredth, ties away from zero.
\<close>

record segment =
  seg_start :: rat
  seg_end :: rat
  seg_color :: string

definition segmentColors :: "string list" where
  "segmentColors =
     [''#0077BE'', ''#00A8E8'', ''#00C9FF'', ''#00E5FF'', ''#1DE9B6'',
      ''#00E676'', ''#69F0AE'', ''#B2FF59'', ''#76FF03'', ''#64DD17'']"

definition toFixed2 :: "rat \<Rightarrow> rat" where
  "toFixed2 x =
     (if x < 0 then - (of_int (round (- x * 100)) / 100)
      else of_int (round (x * 100)) / 100)"

definition checkOverlap :: "segment \<Rightarrow> segment \<Rightarrow> bool" where
  "checkOverlap segment1 segment2 =
     ((seg_start segment1 \<le> seg_end segment2 \<and> seg_end segment1 \<ge> seg_start segment2) \<or>
      (seg_start segment2 \<le> seg_end segment1 \<and> seg_end segment2 \<ge> seg_start segment1))"

definition mergeSegments :: "segment \<Rightarrow> segment \<Rightarrow> segment" where
  "mergeSegments segment1 segment2 =
     \<lparr> seg_start = min (seg_start segment1) (seg_start segment2),
       seg_end = max (seg_end segment1) (seg_end segment2),
       seg_color = seg_color segment1 \<rparr>"

record app =
  segments :: "segment list"
  currentTime :: rat
  isSelecting :: bool
  selectionStart :: rat
  selectionEnd :: rat
  showStartMarker :: bool
  showEndMarker :: bool

definition startSelection :: "app \<Rightarrow> app" where
  "startSelection a =
     a\<lparr> selectionStart := currentTime a, selectionEnd := currentTime a,
        isSelecting := True, showStartMarker := True, showEndMarker := False \<rparr>"

text \<open>
  The merge loop of \<^verbatim>\<open>endSelection\<close>: one pass over \<^verbatim>\<open>updatedSegments\<close> by index;
  an overlapping entry is folded into \<^verbatim>\<open>mergedSegment\<close> and spliced out, and the index
  stays where it is (\<^verbatim>\<open>i--\<close> followed by the loop's \<^verbatim>\<open>i++\<close>).
  The result is (mergedSegment, updatedSegments, hasOverlap).
\<close>

function merge_loop ::
  "nat \<Rightarrow> segment \<Rightarrow> segment list \<Rightarrow> bool \<Rightarrow> segment \<times> segment list \<times> bool" where
  "merge_loop i mergedSegment updatedSegments hasOverlap =
     (if i < length updatedSegments then
        (if checkOverlap mergedSegment (updatedSegments ! i) then
           merge_loop i (mergeSegments mergedSegment (updatedSegments ! i))
             (take i updatedSegments @ drop (Suc i) updatedSegments) True
         else merge_loop (Suc i) mergedSegment updatedSegments hasOverlap)
      else (mergedSegment, updatedSegments, hasOverlap))"
  by pat_completeness auto

termination
  by (relation "measure (\<lambda>(i, m, u, h). length u - i)") auto

declare merge_loop.simps [simp del]

text \<open>
  \<^verbatim>\<open>Array.prototype.sort\<close> with the comparator \<^verbatim>\<open>a.start - b.start\<close> is a stable sort on
  the start time, which is what \<^const>\<open>sort_key\<close> computes.
\<close>

definition endSelection :: "app \<Rightarrow> app" where
  "endSelection a =
     (if isSelecting a then
        (let endTime = currentTime a;
             a1 = a\<lparr> selectionEnd := endTime, isSelecting := False, showEndMarker := True \<rparr>
         in if endTime > selectionStart a then
              (let colorIndex = length (segments a) mod length segmentColors;
                   newSegment =
                     \<lparr> seg_start = toFixed2 (min (selectionStart a) endTime),
                       seg_end = toFixed2 (max (selectionStart a) endTime),
                       seg_color = segmentColors ! colorIndex \<rparr>
               in case merge_loop 0 newSegment (segments a) False of
                    (mergedSegment, updatedSegments, hasOverlap) \<Rightarrow>
                      a1\<lparr> segments :=
                            sort_key seg_start
                              (if hasOverlap then updatedSegments @ [mergedSegment]
                               else updatedSegments @ [newSegment]) \<rparr>)
            else a1)
      else a)"

text \<open>What the user does to the selection: seek the video, start a selection, end it.\<close>

datatype ui_event = Seek rat | StartSelection | EndSelection

fun ui_step :: "app \<Rightarrow> ui_event \<Rightarrow> app" where
  "ui_step a (Seek t) = a\<lparr> currentTime := t \<rparr>"
| "ui_step a StartSelection = startSelection a"
| "ui_step a EndSelection = endSelection a"

definition initial_app :: app where
  "initial_app =
     \<lparr> segments = [], currentTime = 0, isSelecting = False, selectionStart = 0,
       selectionEnd = 0, showStartMarker = False, showEndMarker = False \<rparr>"

text \<open>The committed set's invariant, as the claim words it.\<close>

fun pairwise_disjoint :: "segment list \<Rightarrow> bool" where
  "pairwise_disjoint [] = True"
| "pairwise_disjoint (x # xs) = (list_all (\<lambda>y. \<not> checkOverlap x y) xs \<and> pairwise_disjoint xs)"

definition sorted_by_start :: "segment list \<Rightarrow> bool" where
  "sorted_by_start xs = sorted (map seg_start xs)"

section \<open>The invariant of the committed segments\<close>

text \<open>
  The inductive invariant: every segment is well formed (start at most end) and each
  one ends strictly before every later one starts.
\<close>

definition wf_seg :: "segment \<Rightarrow> bool" where
  "wf_seg x = (seg_start x \<le> seg_end x)"

definition separated :: "segment list \<Rightarrow> bool" where
  "separated xs = (list_all wf_seg xs \<and> sorted_wrt (\<lambda>a b. seg_end a < seg_start b) xs)"

text \<open>The loop seen as a recursion over the part of the list not yet visited.\<close>

fun merge_rest :: "segment \<Rightarrow> segment list \<Rightarrow> bool \<Rightarrow> segment \<times> segment list \<times> bool" where
  "merge_rest m [] h = (m, [], h)"
| "merge_rest m (x # xs) h =
     (if checkOverlap m x then merge_rest (mergeSegments m x) xs True
      else (case merge_rest m xs h of (m', r, h') \<Rightarrow> (m', x # r, h')))"

section \<open>The server: tracked files, sessions and download tokens\<close>

text \<open>
  The three tracker Maps of \<^verbatim>\<open>fileTracker\<close> (\<^verbatim>\<open>uploads\<close>, \<^verbatim>\<open>output\<close>, \<^verbatim>\<open>temp\<close>) are indexed by
  the file type; every call site passes one of the literals \<^verbatim>\<open>"upload"\<close>, \<^verbatim>\<open>"output"\<close>,
  \<^verbatim>\<open>"temp"\<close>. A JavaScript Map is an association list in insertion order:
  \<^verbatim>\<open>get\<close> is \<^const>\<open>map_of\<close>, \<^verbatim>\<open>set\<close> is \<^const>\<open>AList.update\<close> (an existing key keeps its
  place) and \<^verbatim>\<open>delete\<close> is \<^const>\<open>AList.delete\<close>. A file on disk is the pair of its
  directory (\<^verbatim>\<open>uploadsDir\<close>, \<^verbatim>\<open>outputDir\<close>, \<^verbatim>\<open>tempDir\<close>, by type) and its name.
  Times are \<^verbatim>\<open>Date.now()\<close> readings in milliseconds.
\<close>

datatype ftype = Upload | Output | Temp

type_synonym path = "ftype \<times> string"

record tracked =
  timestamp :: int
  clientId :: string
  inUse :: bool

record client =
  lastActivity :: int
  files :: "(string \<times> ftype) list"
  originalName :: "string option"

record token_data =
  tok_filename :: string
  created :: int
  tok_originalName :: string

text \<open>
  The state also holds the file system as the server sees it: \<open>disk\<close> is the set of paths
  for which \<^verbatim>\<open>fs.existsSync\<close> is true, and \<open>unlink_throws\<close> the paths on which
  \<^verbatim>\<open>fs.unlinkSync\<close> throws (a disk-level error).
\<close>

record server =
  fileTracker :: "ftype \<Rightarrow> (string \<times> tracked) list"
  clients :: "(string \<times> client) list"
  downloadTokens :: "(string \<times> token_data) list"
  disk :: "path set"
  unlink_throws :: "path set"

definition maxAge :: int where
  "maxAge = 30 * 60 * 1000"

definition heartbeatTimeout :: int where
  "heartbeatTimeout = 5 * 60 * 1000"

text \<open>
  \<^verbatim>\<open>trackFile(filename, type, clientId)\<close>, called at time \<open>now\<close>: the call runs to its
  end without a pause, and its \<^verbatim>\<open>Date.now()\<close> readings are taken to be the same.
\<close>

definition trackFile :: "server \<Rightarrow> int \<Rightarrow> string \<Rightarrow> ftype \<Rightarrow> string \<Rightarrow> server" where
  "trackFile s now filename type cid =
     (let s1 = s\<lparr> fileTracker := (fileTracker s)
                 (type := AList.update filename
                    \<lparr> timestamp = now, clientId = cid, inUse = False \<rparr> (fileTracker s type)) \<rparr>;
          s2 = (if map_of (clients s1) cid = None
                then s1\<lparr> clients := AList.update cid
                         \<lparr> lastActivity = now, files = [], originalName = None \<rparr> (clients s1) \<rparr>
                else s1)
      in case map_of (clients s2) cid of
           None \<Rightarrow> s2
         | Some c \<Rightarrow>
             s2\<lparr> clients := AList.update cid
                   (c\<lparr> files := files c @ [(filename, type)], lastActivity := now \<rparr>)
                   (clients s2) \<rparr>)"

text \<open>
  \<^verbatim>\<open>deleteFile(filename, type)\<close> returns whether it deleted the file. It touches the file
  system and the tracker of the type, and nothing else.
\<close>

definition deleteFile :: "server \<Rightarrow> string \<Rightarrow> ftype \<Rightarrow> bool \<times> server" where
  "deleteFile s filename type =
     (if (case map_of (fileTracker s type) filename of None \<Rightarrow> False | Some data \<Rightarrow> inUse data)
      then (False, s)
      else if (type, filename) \<in> disk s then
        (if (type, filename) \<in> unlink_throws s then (False, s)
         else (True, s\<lparr> disk := disk s - {(type, filename)},
                        fileTracker := (fileTracker s)
                          (type := AList.delete filename (fileTracker s type)) \<rparr>))
      else (False, s))"

definition cleanupClientFiles :: "server \<Rightarrow> string \<Rightarrow> server" where
  "cleanupClientFiles s cid =
     (case map_of (clients s) cid of
        None \<Rightarrow> s
      | Some c \<Rightarrow>
          (let s1 = foldl (\<lambda>s (filename, type). snd (deleteFile s filename type)) s (files c)
           in s1\<lparr> clients := AList.delete cid (clients s1) \<rparr>))"

text \<open>
  \<^verbatim>\<open>scheduledCleanup\<close> run at time \<open>now\<close>. Each \<^verbatim>\<open>for ... of map.entries()\<close> loop walks
  the Map's keys in insertion order and reads the live entry; a key removed before the
  loop reaches it is not visited.
\<close>

definition sweep_tracker :: "int \<Rightarrow> ftype \<Rightarrow> server \<Rightarrow> server" where
  "sweep_tracker now type s =
     foldl (\<lambda>s filename.
              case map_of (fileTracker s type) filename of
                None \<Rightarrow> s
              | Some data \<Rightarrow>
                  if \<not> inUse data \<and> now - timestamp data > maxAge
                  then snd (deleteFile s filename type) else s)
       s (map fst (fileTracker s type))"

definition sweep_clients :: "int \<Rightarrow> server \<Rightarrow> server" where
  "sweep_clients now s =
     foldl (\<lambda>s cid.
              case map_of (clients s) cid of
                None \<Rightarrow> s
              | Some c \<Rightarrow>
                  if now - lastActivity c > heartbeatTimeout
                  then cleanupClientFiles s cid else s)
       s (map fst (clients s))"

definition sweep_tokens :: "int \<Rightarrow> server \<Rightarrow> server" where
  "sweep_tokens now s =
     foldl (\<lambda>s token.
              case map_of (downloadTokens s) token of
                None \<Rightarrow> s
              | Some data \<Rightarrow>
                  if now - created data > maxAge
                  then s\<lparr> downloadTokens := AList.delete token (downloadTokens s) \<rparr> else s)
       s (map fst (downloadTokens s))"

definition scheduledCleanup :: "int \<Rightarrow> server \<Rightarrow> server" where
  "scheduledCleanup now s =
     sweep_tokens now (sweep_clients now
       (sweep_tracker now Temp (sweep_tracker now Output (sweep_tracker now Upload s))))"

subsection \<open>The download endpoint\<close>

datatype http_error = Status400 string | Status404 string | Status500 string

text \<open>
  \<^verbatim>\<open>GET /download/:token\<close> runs in two steps: the request handler, which answers 404 or
  starts the transfer, and the callback of \<^verbatim>\<open>res.download\<close>, which runs when the transfer
  has ended (with or without an error). The transfer record is what the callback's
  closure holds: the token, the file name from the token's data, and whether
  \<^verbatim>\<open>fileData\<close> was found. The callback's \<^verbatim>\<open>fileData.inUse = false\<close> writes to the entry
  object the handler found; the model takes it to be the entry the tracker still holds
  under that file name (an entry that is in use is not deleted, and only a run of the
  pipeline that produces the same result name would replace it).
\<close>

record transfer =
  tr_token :: string
  tr_filename :: string
  tr_downloadName :: string
  tr_fileData :: bool

definition set_inUse :: "server \<Rightarrow> string \<Rightarrow> bool \<Rightarrow> server" where
  "set_inUse s filename b =
     (case map_of (fileTracker s Output) filename of
        None \<Rightarrow> s
      | Some fileData \<Rightarrow>
          s\<lparr> fileTracker := (fileTracker s)
                (Output := AList.update filename (fileData\<lparr> inUse := b \<rparr>) (fileTracker s Output)) \<rparr>)"

definition download_request :: "server \<Rightarrow> string \<Rightarrow> (http_error + transfer) \<times> server" where
  "download_request s token =
     (case map_of (downloadTokens s) token of
        None \<Rightarrow> (Inl (Status404 ''Download link has expired or is invalid.''), s)
      | Some data \<Rightarrow>
          if (Output, tok_filename data) \<notin> disk s
          then (Inl (Status404 ''File not found on server.''), s)
          else (Inr \<lparr> tr_token = token, tr_filename = tok_filename data,
                      tr_downloadName = tok_originalName data @ ''-vidsnip-edited.mp4'',
                      tr_fileData = (map_of (fileTracker s Output) (tok_filename data) \<noteq> None) \<rparr>,
                set_inUse s (tok_filename data) True))"

definition download_callback :: "server \<Rightarrow> transfer \<Rightarrow> server" where
  "download_callback s tr =
     (let s1 = (if tr_fileData tr then set_inUse s (tr_filename tr) False else s)
      in s1\<lparr> downloadTokens := AList.delete (tr_token tr) (downloadTokens s1) \<rparr>)"

subsection \<open>The encode pipeline\<close>

text \<open>Numbers inside the generated file names and tokens, in decimal.\<close>

fun show_nat :: "nat \<Rightarrow> string" where
  "show_nat n =
     (if n < 10 then [''0123456789'' ! n]
      else show_nat (n div 10) @ [''0123456789'' ! (n mod 10)])"

declare show_nat.simps [simp del]

definition show_int :: "int \<Rightarrow> string" where
  "show_int i = (if i < 0 then ''-'' @ show_nat (nat (- i)) else show_nat (nat i))"

text \<open>
  An invocation of the external encoder through \<^verbatim>\<open>exec\<close>: a segment cut (input file,
  \<^verbatim>\<open>-ss\<close> start, \<^verbatim>\<open>-to\<close> end, output file) or the concatenation (list file, output
  file). What one run of \<^verbatim>\<open>POST /process\<close> gets from outside: the clock readings before
  the first \<^verbatim>\<open>await\<close>, when the list file is written and after the concatenation; the
  random number of the token; for each encoder invocation whether it succeeds (\<^verbatim>\<open>err\<close>
  is null); whether \<^verbatim>\<open>fs.writeFileSync\<close> throws; and Node's \<^verbatim>\<open>path.parse(p).name\<close>.
  A successful invocation leaves its output file on disk; a failed one is taken to leave
  the disk as it was. \<open>process\<close> is the run on its own, with no other request or sweep
  between its \<^verbatim>\<open>await\<close>s; \<open>process_among\<close> below is the run with what other handlers
  do in between. A client id is a string; a request without one would use
  \<^verbatim>\<open>undefined\<close> as the key, which a Map treats like any other.
\<close>

datatype encoder_call = Cut path rat rat path | Concat path path

record process_env =
  now_start :: int
  now_list :: int
  now_done :: int
  random :: nat
  encoder_ok :: "encoder_call \<Rightarrow> bool"
  write_throws :: bool
  parse_name :: "string \<Rightarrow> string"

record process_request =
  req_filename :: string
  req_segments :: "segment list"
  req_clientId :: string

definition outputFilename :: "process_env \<Rightarrow> string" where
  "outputFilename e = ''processed-'' @ show_int (now_start e) @ ''.mp4''"

definition tempFile :: "process_env \<Rightarrow> nat \<Rightarrow> string" where
  "tempFile e i = ''temp-'' @ show_nat i @ ''-'' @ show_int (now_start e) @ ''.mp4''"

definition listFile :: "process_env \<Rightarrow> string" where
  "listFile e = ''list-'' @ show_int (now_list e) @ ''.txt''"

definition new_token :: "process_env \<Rightarrow> string" where
  "new_token e = ''dl-'' @ show_int (now_done e) @ ''-'' @ show_nat (random e)"

text \<open>
  The \<^verbatim>\<open>for\<close> loop over the segments: each cut is awaited before the next starts, and the
  first failure rejects, which leaves the loop. The result says whether every cut
  succeeded, and carries the state and the invocations made so far.
\<close>

fun cut_segments ::
  "process_env \<Rightarrow> path \<Rightarrow> (segment \<times> string) list \<Rightarrow> server \<Rightarrow> encoder_call list \<Rightarrow>
   bool \<times> server \<times> encoder_call list" where
  "cut_segments e inputPath [] s calls = (True, s, calls)"
| "cut_segments e inputPath ((seg, f) # rest) s calls =
     (let cmd = Cut inputPath (seg_start seg) (seg_end seg) (Temp, f)
      in if encoder_ok e cmd
         then cut_segments e inputPath rest (s\<lparr> disk := insert (Temp, f) (disk s) \<rparr>) (calls @ [cmd])
         else (False, s, calls @ [cmd]))"

text \<open>
  \<^verbatim>\<open>POST /process\<close>: the response (an error, or the download token), the state afterwards
  and the encoder invocations made, in order.
\<close>

definition process ::
  "server \<Rightarrow> process_env \<Rightarrow> process_request \<Rightarrow> (http_error + string) \<times> server \<times> encoder_call list" where
  "process s e req =
     (if req_filename req = [] \<or> req_segments req = []
      then (Inl (Status400 ''Invalid request''), s, [])
      else if (Upload, req_filename req) \<notin> disk s
      then (Inl (Status404 ''File not found''), s, [])
      else
        (let inputPath = (Upload, req_filename req);
             cid = req_clientId req;
             origName =
               (case map_of (clients s) cid of
                  None \<Rightarrow> ''video''
                | Some c \<Rightarrow>
                    (case originalName c of
                       None \<Rightarrow> ''video''
                     | Some n \<Rightarrow> if n = [] then ''video'' else n));
             tempFiles = map (tempFile e) [0..<length (req_segments req)];
             s1 = foldl (\<lambda>s f. trackFile s (now_start e) f Temp cid) s tempFiles
         in case cut_segments e inputPath (zip (req_segments req) tempFiles) s1 [] of
              (False, s2, calls) \<Rightarrow> (Inl (Status500 ''Video processing failed''), s2, calls)
            | (True, s2, calls) \<Rightarrow>
                if write_throws e
                then (Inl (Status500 ''Video processing failed''), s2, calls)
                else
                  (let s3 = trackFile (s2\<lparr> disk := insert (Temp, listFile e) (disk s2) \<rparr>)
                              (now_list e) (listFile e) Temp cid;
                       cmd = Concat (Temp, listFile e) (Output, outputFilename e)
                   in if \<not> encoder_ok e cmd
                      then (Inl (Status500 ''Video processing failed''), s3, calls @ [cmd])
                      else
                        (let s4 = s3\<lparr> disk := insert (Output, outputFilename e) (disk s3) \<rparr>;
                             s5 = foldl (\<lambda>s f. snd (deleteFile s f Temp)) s4 tempFiles;
                             s6 = snd (deleteFile s5 (listFile e) Temp);
                             s7 = trackFile s6 (now_done e) (outputFilename e) Output cid;
                             s8 = s7\<lparr> downloadTokens :=
                                       AList.update (new_token e)
                                         \<lparr> tok_filename = outputFilename e, created = now_done e,
                                           tok_originalName = parse_name e origName \<rparr>
                                         (downloadTokens s7) \<rparr>
                         in (Inr (new_token e), s8, calls @ [cmd])))))"

text \<open>The invocations a run over the request's segments is meant to make, in order.\<close>

definition cut_calls :: "process_env \<Rightarrow> process_request \<Rightarrow> encoder_call list" where
  "cut_calls e req =
     map (\<lambda>(seg, i). Cut (Upload, req_filename req) (seg_start seg) (seg_end seg) (Temp, tempFile e i))
       (zip (req_segments req) [0..<length (req_segments req)])"

definition concat_call :: "process_env \<Rightarrow> encoder_call" where
  "concat_call e = Concat (Temp, listFile e) (Output, outputFilename e)"

fun is_concat :: "encoder_call \<Rightarrow> bool" where
  "is_concat (Concat l out) = True"
| "is_concat (Cut inp a b out) = False"

subsection \<open>The other endpoints, and runs of the server\<close>

text \<open>
  \<^verbatim>\<open>POST /upload\<close> after multer has stored the file under \<open>filename\<close>; \<open>cid\<close> is the
  request's client id, or a fresh one when it has none. \<^verbatim>\<open>POST /heartbeat\<close> refreshes a
  known session.
\<close>

definition upload :: "server \<Rightarrow> int \<Rightarrow> string \<Rightarrow> string \<Rightarrow> string \<Rightarrow> server" where
  "upload s now filename originalname cid =
     (let s1 = trackFile (s\<lparr> disk := insert (Upload, filename) (disk s) \<rparr>) now filename Upload cid;
          s2 = (if map_of (clients s1) cid = None
                then s1\<lparr> clients := AList.update cid
                         \<lparr> lastActivity = now, files = [], originalName = None \<rparr> (clients s1) \<rparr>
                else s1)
      in case map_of (clients s2) cid of
           None \<Rightarrow> s2
         | Some c \<Rightarrow>
             s2\<lparr> clients := AList.update cid (c\<lparr> originalName := Some originalname \<rparr>) (clients s2) \<rparr>)"

definition heartbeat :: "server \<Rightarrow> int \<Rightarrow> string \<Rightarrow> server" where
  "heartbeat s now cid =
     (case map_of (clients s) cid of
        None \<Rightarrow> s
      | Some c \<Rightarrow> s\<lparr> clients := AList.update cid (c\<lparr> lastActivity := now \<rparr>) (clients s) \<rparr>)"

datatype event =
    EvUpload int string string string
  | EvHeartbeat int string
  | EvProcess process_env process_request
  | EvDownload string
  | EvDownloadDone transfer
  | EvCleanup string
  | EvSweep int

fun server_step :: "server \<Rightarrow> event \<Rightarrow> server" where
  "server_step s (EvUpload now filename originalname cid) = upload s now filename originalname cid"
| "server_step s (EvHeartbeat now cid) = heartbeat s now cid"
| "server_step s (EvProcess e req) = fst (snd (process s e req))"
| "server_step s (EvDownload token) = snd (download_request s token)"
| "server_step s (EvDownloadDone tr) = download_callback s tr"
| "server_step s (EvCleanup cid) = cleanupClientFiles s cid"
| "server_step s (EvSweep now) = scheduledCleanup now s"

fun mints :: "string \<Rightarrow> event \<Rightarrow> bool" where
  "mints token (EvProcess e req) = (new_token e = token)"
| "mints token ev = False"

subsection \<open>A run of the pipeline among other requests\<close>

text \<open>
  The handler of \<^verbatim>\<open>POST /process\<close> gives up control at each \<^verbatim>\<open>await\<close> of an encoder
  invocation, and other handlers and the timer's sweep run before it gets control back;
  from its start to the first \<^verbatim>\<open>await\<close>, from the end of one \<^verbatim>\<open>await\<close> to the next, and
  from the last to the response it runs without a pause. A \<open>gap\<close> holds what happens
  during one \<^verbatim>\<open>await\<close>: the events before the encoder's output file appears on disk, and
  the events after it. A failed invocation is taken to leave the disk as it was, so that
  the two lists then run one after the other. The gaps of a run come as a list, one for
  each cut in order and then one for the concatenation; where the list has run out the
  gap is empty. Another run of the pipeline inside a gap is taken as one step.
\<close>

type_synonym gap = "event list \<times> event list"

definition next_gap :: "gap list \<Rightarrow> gap" where
  "next_gap gs = (case gs of [] \<Rightarrow> ([], []) | g # rest \<Rightarrow> g)"

definition await_exec :: "server \<Rightarrow> gap \<Rightarrow> bool \<Rightarrow> path \<Rightarrow> server" where
  "await_exec s g ok out =
     (let s1 = foldl server_step s (fst g);
          s2 = (if ok then s1\<lparr> disk := insert out (disk s1) \<rparr> else s1)
      in foldl server_step s2 (snd g))"

fun cut_segments_among ::
  "process_env \<Rightarrow> path \<Rightarrow> (segment \<times> string) list \<Rightarrow> gap list \<Rightarrow> server \<Rightarrow> encoder_call list \<Rightarrow>
   bool \<times> server \<times> encoder_call list" where
  "cut_segments_among e inputPath [] gs s calls = (True, s, calls)"
| "cut_segments_among e inputPath ((seg, f) # rest) gs s calls =
     (let cmd = Cut inputPath (seg_start seg) (seg_end seg) (Temp, f);
          s' = await_exec s (next_gap gs) (encoder_ok e cmd) (Temp, f)
      in if encoder_ok e cmd
         then cut_segments_among e inputPath rest (tl gs) s' (calls @ [cmd])
         else (False, s', calls @ [cmd]))"

text \<open>
  \<^verbatim>\<open>POST /process\<close> with the gaps \<open>gs\<close> of its \<^verbatim>\<open>await\<close>s. The client's original name
  is read before the first \<^verbatim>\<open>await\<close>, as the handler does. With no gaps this is
  \<open>process\<close>.
\<close>

definition process_among ::
  "server \<Rightarrow> process_env \<Rightarrow> process_request \<Rightarrow> gap list \<Rightarrow>
   (http_error + string) \<times> server \<times> encoder_call list" where
  "process_among s e req gs =
     (if req_filename req = [] \<or> req_segments req = []
      then (Inl (Status400 ''Invalid request''), s, [])
      else if (Upload, req_filename req) \<notin> disk s
      then (Inl (Status404 ''File not found''), s, [])
      else
        (let inputPath = (Upload, req_filename req);
             cid = req_clientId req;
             origName =
               (case map_of (clients s) cid of
                  None \<Rightarrow> ''video''
                | Some c \<Rightarrow>
                    (case originalName c of
                       None \<Rightarrow> ''video''
                     | Some n \<Rightarrow> if n = [] then ''video'' else n));
             tempFiles = map (tempFile e) [0..<length (req_segments req)];
             s1 = foldl (\<lambda>s f. trackFile s (now_start e) f Temp cid) s tempFiles
         in case cut_segments_among e inputPath (zip (req_segments req) tempFiles) gs s1 [] of
              (False, s2, calls) \<Rightarrow> (Inl (Status500 ''Video processing failed''), s2, calls)
            | (True, s2, calls) \<Rightarrow>
                if write_throws e
                then (Inl (Status500 ''Video processing failed''), s2, calls)
                else
                  (let s3 = trackFile (s2\<lparr> disk := insert (Temp, listFile e) (disk s2) \<rparr>)
                              (now_list e) (listFile e) Temp cid;
                       cmd = Concat (Temp, listFile e) (Output, outputFilename e);
                       s4 = await_exec s3 (next_gap (drop (length (req_segments req)) gs))
                              (encoder_ok e cmd) (Output, outputFilename e)
                   in if \<not> encoder_ok e cmd
                      then (Inl (Status500 ''Video processing failed''), s4, calls @ [cmd])
                      else
                        (let s5 = foldl (\<lambda>s f. snd (deleteFile s f Temp)) s4 tempFiles;
                             s6 = snd (deleteFile s5 (listFile e) Temp);
                             s7 = trackFile s6 (now_done e) (outputFilename e) Output cid;
                             s8 = s7\<lparr> downloadTokens :=
                                       AList.update (new_token e)
                                         \<lparr> tok_filename = outputFilename e, created = now_done e,
                                           tok_originalName = parse_name e origName \<rparr>
                                         (downloadTokens s7) \<rparr>
                         in (Inr (new_token e), s8, calls @ [cmd])))))"




section \<open>What a sweep and a cleanup may change\<close>

text \<open>
  The in-use flag of a path as \<^verbatim>\<open>deleteFile\<close> reads it (\<^verbatim>\<open>data?.inUse\<close>): true when
  the tracker of the path's type holds an entry under its name and that entry's flag is
  set. \<open>entry\<close> is the tracker entry of a path.
\<close>

definition in_use :: "server \<Rightarrow> path \<Rightarrow> bool" where
  "in_use s p =
     (case map_of (fileTracker s (fst p)) (snd p) of None \<Rightarrow> False | Some data \<Rightarrow> inUse data)"

definition entry :: "server \<Rightarrow> path \<Rightarrow> tracked option" where
  "entry s p = map_of (fileTracker s (fst p)) (snd p)"

text \<open>
  Sweeps and cleanups only ever take files and entries away. \<open>shrinks s s'\<close> says how
  \<open>s'\<close> may differ from \<open>s\<close> in files and trackers: no file is new; an entry is as it
  was, or gone, and then it was not in use and its file, which was on the disk, is gone
  too; a file that is gone was not in use, its entry is gone with it, and its unlink does
  not fail.
\<close>

definition shrinks :: "server \<Rightarrow> server \<Rightarrow> bool" where
  "shrinks s s' =
     (unlink_throws s' = unlink_throws s \<and>
      disk s' \<subseteq> disk s \<and>
      (\<forall>p. entry s' p = entry s p \<or>
           (entry s' p = None \<and> \<not> in_use s p \<and> p \<in> disk s \<and> p \<notin> disk s')) \<and>
      (\<forall>p\<in>disk s - disk s'. \<not> in_use s p \<and> entry s' p = None \<and> p \<notin> unlink_throws s))"

section \<open>The invocations a run makes\<close>

text \<open>The invocations made out of a list of planned ones: up to and with the first that fails.\<close>

fun performed :: "(encoder_call \<Rightarrow> bool) \<Rightarrow> encoder_call list \<Rightarrow> encoder_call list" where
  "performed ok [] = []"
| "performed ok (c # cs) = (if ok c then c # performed ok cs else [c])"

definition cut_of :: "path \<Rightarrow> segment \<times> string \<Rightarrow> encoder_call" where
  "cut_of inputPath = (\<lambda>(seg, f). Cut inputPath (seg_start seg) (seg_end seg) (Temp, f))"

text \<open>One run of the pipeline on a request that passes the two checks, spelled out.\<close>

definition pipeline_ok :: "process_env \<Rightarrow> process_request \<Rightarrow> bool" where
  "pipeline_ok e req =
     (list_all (encoder_ok e) (cut_calls e req) \<and> \<not> write_throws e \<and> encoder_ok e (concat_call e))"

section \<open>Example states and runs\<close>

text \<open>
  The server right after its start, in surroundings where unlinking the paths in \<open>throws\<close>
  fails.
\<close>

definition empty_server :: server where
  "empty_server =
     \<lparr> fileTracker = (\<lambda>type. []), clients = [], downloadTokens = [], disk = {}, unlink_throws = {} \<rparr>"

definition start_server :: "path set \<Rightarrow> server" where
  "start_server throws = empty_server\<lparr> unlink_throws := throws \<rparr>"

text \<open>A session has uploaded a file at time 1000 (milliseconds).\<close>

definition uploaded_server :: server where
  "uploaded_server = upload empty_server 1000 ''up.mp4'' ''clip.mp4'' ''c1''"

text \<open>A request for two segments of the uploaded file, and one for three.\<close>

definition two_segments :: process_request where
  "two_segments =
     \<lparr> req_filename = ''up.mp4'',
       req_segments = [\<lparr> seg_start = 0, seg_end = 2, seg_color = ''#0077BE'' \<rparr>,
                       \<lparr> seg_start = 5, seg_end = 7, seg_color = ''#00A8E8'' \<rparr>],
       req_clientId = ''c1'' \<rparr>"

definition three_segments :: process_request where
  "three_segments =
     \<lparr> req_filename = ''up.mp4'',
       req_segments = [\<lparr> seg_start = 0, seg_end = 2, seg_color = ''#0077BE'' \<rparr>,
                       \<lparr> seg_start = 5, seg_end = 7, seg_color = ''#00A8E8'' \<rparr>,
                       \<lparr> seg_start = 9, seg_end = 10, seg_color = ''#00C9FF'' \<rparr>],
       req_clientId = ''c1'' \<rparr>"

text \<open>
  The surroundings of a run, given which encoder invocations succeed. \<open>strip_ext\<close> is
  \<^verbatim>\<open>path.parse(p).name\<close> on a name without directories: the name without its last
  extension, where a dot that starts the name starts no extension.
\<close>

definition strip_ext :: "string \<Rightarrow> string" where
  "strip_ext n =
     (let r = dropWhile (\<lambda>c. c \<noteq> CHR ''.'') (rev n)
      in if r = [] \<or> tl r = [] then n else rev (tl r))"

definition run_env :: "(encoder_call \<Rightarrow> bool) \<Rightarrow> process_env" where
  "run_env ok =
     \<lparr> now_start = 2000, now_list = 3000, now_done = 5000, random = 7, encoder_ok = ok,
       write_throws = False, parse_name = strip_ext \<rparr>"

fun second_cut_fails :: "encoder_call \<Rightarrow> bool" where
  "second_cut_fails (Cut inp a b out) = (a \<noteq> 5)"
| "second_cut_fails (Concat l out) = True"


text \<open>
  The server after the upload and a successful run over the two segments: the result file
  is tracked and on disk, its token was issued at time 5000, and no download is running.
  In \<open>stuck_server\<close> the same has happened on a disk that refuses to unlink the upload.
\<close>

definition issued_on :: "path set \<Rightarrow> server" where
  "issued_on throws =
     fst (snd (process (upload (start_server throws) 1000 ''up.mp4'' ''clip.mp4'' ''c1'')
       (run_env (\<lambda>c. True)) two_segments))"

definition issued_server :: server where
  "issued_server = issued_on {}"

definition stuck_server :: server where
  "stuck_server = issued_on {(Upload, ''up.mp4'')}"

text \<open>The same while the result is being downloaded.\<close>

definition downloading_server :: server where
  "downloading_server = snd (download_request issued_server ''dl-5000-7'')"

text \<open>
  The server after the upload and a run over three segments whose second cut failed: the
  first intermediate is on disk, the other two are tracked and were never written.
\<close>

definition failed_server :: server where
  "failed_server = fst (snd (process uploaded_server (run_env second_cut_fails) three_segments))"



text \<open>A later time: 31 minutes after the token was issued.\<close>

definition later :: int where
  "later = 5000 + 31 * 60 * 1000"

section \<open>The merge keeps the segments apart\<close>

lemma merge_loop_rest:
  "i \<le> length u \<Longrightarrow>
   merge_loop i m u h = (case merge_rest m (drop i u) h of (m', r, h') \<Rightarrow> (m', take i u @ r, h'))"
proof (induction i m u h rule: merge_loop.induct)
  case (1 i m u h)
  show ?case
  proof (cases "i < length u")
    case False
    with 1(3) show ?thesis by (simp add: merge_loop.simps)
  next
    case True
    then have d: "drop i u = u ! i # drop (Suc i) u"
      by (simp add: Cons_nth_drop_Suc)
    show ?thesis
    proof (cases "checkOverlap m (u ! i)")
      case True
      have "merge_loop i m u h =
            merge_loop i (mergeSegments m (u ! i)) (take i u @ drop (Suc i) u) True"
        using \<open>i < length u\<close> True by (subst merge_loop.simps) simp
      also have "\<dots> = (case merge_rest (mergeSegments m (u ! i))
                          (drop i (take i u @ drop (Suc i) u)) True of
                        (m', r, h') \<Rightarrow> (m', take i (take i u @ drop (Suc i) u) @ r, h'))"
        using 1(1) [OF \<open>i < length u\<close> True] \<open>i < length u\<close> by simp
      also have "\<dots> = (case merge_rest m (drop i u) h of (m', r, h') \<Rightarrow> (m', take i u @ r, h'))"
        using \<open>i < length u\<close> True by (simp add: d)
      finally show ?thesis .
    next
      case False
      have "merge_loop i m u h = merge_loop (Suc i) m u h"
        using \<open>i < length u\<close> False by (subst merge_loop.simps) simp
      also have "\<dots> = (case merge_rest m (drop (Suc i) u) h of
                        (m', r, h') \<Rightarrow> (m', take (Suc i) u @ r, h'))"
        using 1(2) [OF \<open>i < length u\<close> False] \<open>i < length u\<close> by simp
      also have "\<dots> = (case merge_rest m (drop i u) h of (m', r, h') \<Rightarrow> (m', take i u @ r, h'))"
        using \<open>i < length u\<close> False
        by (simp add: d take_Suc_conv_app_nth split: prod.splits)
      finally show ?thesis .
    qed
  qed
qed

lemma merge_loop_0: "merge_loop 0 m u h = merge_rest m u h"
  using merge_loop_rest [of 0 u m h] by (simp split: prod.splits)

lemma checkOverlap_iff:
  "checkOverlap a b \<longleftrightarrow> seg_start a \<le> seg_end b \<and> seg_start b \<le> seg_end a"
  by (auto simp: checkOverlap_def)

lemma wf_mergeSegments: "wf_seg m \<Longrightarrow> wf_seg x \<Longrightarrow> wf_seg (mergeSegments m x)"
  by (auto simp: wf_seg_def mergeSegments_def)

lemma merge_rest_none:
  "list_all (\<lambda>y. \<not> checkOverlap m y) xs \<Longrightarrow> merge_rest m xs h = (m, xs, h)"
  by (induction xs) auto

lemma merge_rest_wf:
  "wf_seg m \<Longrightarrow> list_all wf_seg xs \<Longrightarrow> merge_rest m xs h = (m', r, h') \<Longrightarrow> wf_seg m'"
proof (induction xs arbitrary: m h r)
  case Nil
  then show ?case by simp
next
  case (Cons x xs)
  from Cons.prems(2) have wx: "wf_seg x" and wxs: "list_all wf_seg xs" by simp_all
  show ?case
  proof (cases "checkOverlap m x")
    case True
    with Cons.prems have "merge_rest (mergeSegments m x) xs True = (m', r, h')" by simp
    from Cons.IH [OF wf_mergeSegments [OF Cons.prems(1) wx] wxs this] show ?thesis .
  next
    case False
    with Cons.prems obtain r0 where "merge_rest m xs h = (m', r0, h')"
      by (auto split: prod.splits)
    from Cons.IH [OF Cons.prems(1) wxs this] show ?thesis .
  qed
qed

lemma merge_rest_subset:
  "merge_rest m xs h = (m', r, h') \<Longrightarrow> set r \<subseteq> set xs"
proof (induction xs arbitrary: m h r)
  case Nil
  then show ?case by simp
next
  case (Cons x xs)
  show ?case
  proof (cases "checkOverlap m x")
    case True
    with Cons.prems have "merge_rest (mergeSegments m x) xs True = (m', r, h')" by simp
    from Cons.IH [OF this] show ?thesis by auto
  next
    case False
    with Cons.prems obtain r0 where "merge_rest m xs h = (m', r0, h')" and "r = x # r0"
      by (auto split: prod.splits)
    with Cons.IH [of m h r0] show ?thesis by auto
  qed
qed

lemma merge_rest_flag:
  "merge_rest m xs h = (m', r, h') \<Longrightarrow> \<not> h' \<Longrightarrow> m' = m"
proof (induction xs arbitrary: m h r)
  case Nil
  then show ?case by simp
next
  case (Cons x xs)
  show ?case
  proof (cases "checkOverlap m x")
    case False
    with Cons.prems obtain r0 where "merge_rest m xs h = (m', r0, h')"
      by (auto split: prod.splits)
    from Cons.IH [OF this Cons.prems(2)] show ?thesis .
  next
    case True
    have "\<And>m r. merge_rest m xs True = (m', r, h') \<Longrightarrow> h'"
    proof (induction xs)
      case Nil
      then show ?case by simp
    next
      case (Cons y ys)
      then show ?case by (auto split: if_splits prod.splits)
    qed
    with True Cons.prems show ?thesis by auto
  qed
qed

lemma merge_rest_start:
  "merge_rest m xs h = (m', r, h') \<Longrightarrow>
   seg_start m' = seg_start m \<or> seg_start m' \<in> seg_start ` set xs"
proof (induction xs arbitrary: m h r)
  case Nil
  then show ?case by simp
next
  case (Cons x xs)
  show ?case
  proof (cases "checkOverlap m x")
    case True
    with Cons.prems have "merge_rest (mergeSegments m x) xs True = (m', r, h')" by simp
    from Cons.IH [OF this] show ?thesis
      by (auto simp: mergeSegments_def min_def)
  next
    case False
    with Cons.prems obtain r0 where "merge_rest m xs h = (m', r0, h')"
      by (auto split: prod.splits)
    from Cons.IH [OF this] show ?thesis by auto
  qed
qed

lemma merge_rest_separated:
  "separated xs \<Longrightarrow> merge_rest m xs h = (m', r, h') \<Longrightarrow> separated r"
proof (induction xs arbitrary: m h r)
  case Nil
  then show ?case by simp
next
  case (Cons x xs)
  from Cons.prems(1) have sx: "separated xs" by (simp add: separated_def)
  show ?case
  proof (cases "checkOverlap m x")
    case True
    with Cons.prems have "merge_rest (mergeSegments m x) xs True = (m', r, h')" by simp
    from Cons.IH [OF sx this] show ?thesis .
  next
    case False
    with Cons.prems obtain r0 where r0: "merge_rest m xs h = (m', r0, h')" and r: "r = x # r0"
      by (auto split: prod.splits)
    from Cons.IH [OF sx r0] have "separated r0" .
    moreover from merge_rest_subset [OF r0] have "set r0 \<subseteq> set xs" .
    ultimately show ?thesis using Cons.prems(1) r
      by (auto simp: separated_def)
  qed
qed

lemma merge_rest_apart:
  "separated xs \<Longrightarrow> wf_seg m \<Longrightarrow> merge_rest m xs h = (m', r, h') \<Longrightarrow>
   list_all (\<lambda>y. \<not> checkOverlap m' y) r"
proof (induction xs arbitrary: m h r)
  case Nil
  then show ?case by simp
next
  case (Cons x xs)
  from Cons.prems(1) have sx: "separated xs" and wx: "wf_seg x"
    and after: "\<forall>y\<in>set xs. seg_end x < seg_start y"
    by (auto simp: separated_def)
  show ?case
  proof (cases "checkOverlap m x")
    case True
    with Cons.prems have "merge_rest (mergeSegments m x) xs True = (m', r, h')" by simp
    from Cons.IH [OF sx wf_mergeSegments [OF Cons.prems(2) wx] this] show ?thesis .
  next
    case False
    with Cons.prems obtain r0 where r0: "merge_rest m xs h = (m', r0, h')" and r: "r = x # r0"
      by (auto split: prod.splits)
    from Cons.IH [OF sx Cons.prems(2) r0] have rest: "list_all (\<lambda>y. \<not> checkOverlap m' y) r0" .
    have "\<not> checkOverlap m' x"
    proof (cases "seg_end x < seg_start m")
      case True
      from merge_rest_start [OF r0] have "seg_end x < seg_start m'"
        using True after by auto
      then show ?thesis by (simp add: checkOverlap_iff)
    next
      case right: False
      with False have "seg_end m < seg_start x"
        by (auto simp: checkOverlap_iff)
      with after wx have "list_all (\<lambda>y. \<not> checkOverlap m y) xs"
        by (auto simp: list_all_iff checkOverlap_iff wf_seg_def)
      from merge_rest_none [OF this] r0 have "m' = m" by simp
      with False show ?thesis by simp
    qed
    with rest r show ?thesis by simp
  qed
qed

lemma separated_sorted_apart:
  "sorted (map seg_start ys) \<Longrightarrow> distinct ys \<Longrightarrow> list_all wf_seg ys \<Longrightarrow>
   (\<forall>a\<in>set ys. \<forall>b\<in>set ys. a \<noteq> b \<longrightarrow> \<not> checkOverlap a b) \<Longrightarrow> separated ys"
proof (induction ys)
  case Nil
  then show ?case by (simp add: separated_def)
next
  case (Cons y ys)
  then have "separated ys" by simp
  moreover have "\<forall>b\<in>set ys. seg_end y < seg_start b"
  proof
    fix b assume b: "b \<in> set ys"
    with Cons.prems have "y \<noteq> b" "seg_start y \<le> seg_start b" "wf_seg b" "\<not> checkOverlap y b"
      by (auto simp: list_all_iff)
    then show "seg_end y < seg_start b"
      by (auto simp: checkOverlap_iff wf_seg_def)
  qed
  ultimately show ?case using Cons.prems(3) by (simp add: separated_def)
qed

lemma separated_distinct: "separated xs \<Longrightarrow> distinct xs"
  by (induction xs) (auto simp: separated_def wf_seg_def)

lemma separated_apart:
  "separated xs \<Longrightarrow> a \<in> set xs \<Longrightarrow> b \<in> set xs \<Longrightarrow> a \<noteq> b \<Longrightarrow> \<not> checkOverlap a b"
proof (induction xs)
  case Nil
  then show ?case by simp
next
  case (Cons x xs)
  then show ?case
    by (auto simp: separated_def checkOverlap_iff wf_seg_def list_all_iff)
qed

lemma separated_pairwise_disjoint: "separated xs \<Longrightarrow> pairwise_disjoint xs"
  by (induction xs) (auto simp: separated_def checkOverlap_iff wf_seg_def list_all_iff)

lemma separated_sorted_by_start: "separated xs \<Longrightarrow> sorted_by_start xs"
  by (induction xs) (auto simp: separated_def sorted_by_start_def wf_seg_def list_all_iff)

lemma toFixed2_mono: "x \<le> y \<Longrightarrow> toFixed2 x \<le> toFixed2 y"
proof -
  assume xy: "x \<le> y"
  have r0: "\<And>z::rat. 0 \<le> z \<Longrightarrow> 0 \<le> round z"
    by (simp add: round_def)
  show ?thesis
  proof (cases "x < 0")
    case xneg: True
    show ?thesis
    proof (cases "y < 0")
      case True
      from xy have "round (- y * 100) \<le> round (- x * 100)"
        by (intro round_mono) simp
      then show ?thesis using xneg True
        by (simp add: toFixed2_def divide_le_cancel of_int_le_iff)
    next
      case False
      have "0 \<le> round (- x * 100)" using xneg by (intro r0) simp
      moreover have "0 \<le> round (y * 100)" using False by (intro r0) simp
      ultimately have "- (of_int (round (- x * 100)) / 100) \<le> (0::rat)"
        and "(0::rat) \<le> of_int (round (y * 100)) / 100"
        by simp_all
      then show ?thesis using xneg False by (simp add: toFixed2_def)
    qed
  next
    case False
    with xy have "\<not> y < 0" by simp
    moreover from xy have "round (x * 100) \<le> round (y * 100)"
      by (intro round_mono) simp
    ultimately show ?thesis using False
      by (simp add: toFixed2_def divide_le_cancel of_int_le_iff)
  qed
qed

lemma endSelection_separated: "separated (segments a) \<Longrightarrow> separated (segments (endSelection a))"
proof (cases "isSelecting a \<and> currentTime a > selectionStart a")
  case False
  assume "separated (segments a)"
  with False show ?thesis by (auto simp: endSelection_def Let_def)
next
  case True
  assume sep: "separated (segments a)"
  define n where "n = \<lparr> seg_start = toFixed2 (selectionStart a),
                       seg_end = toFixed2 (currentTime a),
                       seg_color = segmentColors ! (length (segments a) mod length segmentColors) \<rparr>"
  obtain m r h where res: "merge_rest n (segments a) False = (m, r, h)"
    by (cases "merge_rest n (segments a) False") auto
  have wn: "wf_seg n"
    using True by (simp add: n_def wf_seg_def toFixed2_mono)
  from sep have wall: "list_all wf_seg (segments a)" by (simp add: separated_def)
  have pushed: "\<not> h \<Longrightarrow> n = m"
    using merge_rest_flag [OF res] by simp
  have segs: "segments (endSelection a) = sort_key seg_start (r @ [m])"
    using True res pushed
    by (auto simp: endSelection_def Let_def merge_loop_0 n_def [symmetric])
  have wm: "wf_seg m" by (rule merge_rest_wf [OF wn wall res])
  have sr: "separated r" by (rule merge_rest_separated [OF sep res])
  have ap: "list_all (\<lambda>y. \<not> checkOverlap m y) r" by (rule merge_rest_apart [OF sep wn res])
  have mr: "m \<notin> set r"
  proof
    assume "m \<in> set r"
    with ap have "\<not> checkOverlap m m" by (simp add: list_all_iff)
    with wm show False by (simp add: checkOverlap_iff wf_seg_def)
  qed
  have "separated (sort_key seg_start (r @ [m]))"
  proof (rule separated_sorted_apart)
    show "sorted (map seg_start (sort_key seg_start (r @ [m])))" by (rule sorted_sort_key)
    show "distinct (sort_key seg_start (r @ [m]))"
      using separated_distinct [OF sr] mr by simp
    show "list_all wf_seg (sort_key seg_start (r @ [m]))"
      using sr wm by (simp add: list_all_iff separated_def)
    show "\<forall>a\<in>set (sort_key seg_start (r @ [m])).
            \<forall>b\<in>set (sort_key seg_start (r @ [m])). a \<noteq> b \<longrightarrow> \<not> checkOverlap a b"
      using separated_apart [OF sr] ap
      by (auto simp: list_all_iff checkOverlap_iff)
  qed
  with segs show ?thesis by simp
qed

text \<open>
  Claim C1. Starting from no segments, after any sequence of seeks, selection starts and
  selection ends (so after every insertion made by \<^verbatim>\<open>endSelection\<close>) the committed
  segments are pairwise disjoint, where touching counts as overlapping as in
  \<^verbatim>\<open>checkOverlap\<close>, and sorted ascending by start time.
\<close>

theorem committed_segments_disjoint_sorted:
  "pairwise_disjoint (segments (foldl ui_step initial_app evs)) \<and>
   sorted_by_start (segments (foldl ui_step initial_app evs))"
proof -
  have "separated (segments (foldl ui_step a evs))" if "separated (segments a)" for a
    using that
  proof (induction evs arbitrary: a)
    case Nil
    then show ?case by simp
  next
    case (Cons e evs)
    have "separated (segments (ui_step a e))"
      using Cons.prems by (cases e) (simp_all add: startSelection_def endSelection_separated)
    from Cons.IH [OF this] show ?case by simp
  qed
  moreover have "separated (segments initial_app)"
    by (simp add: initial_app_def separated_def)
  ultimately have "separated (segments (foldl ui_step initial_app evs))" .
  then show ?thesis
    by (simp add: separated_pairwise_disjoint separated_sorted_by_start)
qed

theorem committed_segments_disjoint_sorted_witness:
  "segments (foldl ui_step initial_app
      [Seek 2, StartSelection, Seek 5, EndSelection,
       Seek 4, StartSelection, Seek 8, EndSelection,
       Seek 10, StartSelection, Seek 12, EndSelection]) =
     [\<lparr> seg_start = 2, seg_end = 8, seg_color = ''#00A8E8'' \<rparr>,
      \<lparr> seg_start = 10, seg_end = 12, seg_color = ''#00A8E8'' \<rparr>] \<and>
   pairwise_disjoint (segments (foldl ui_step initial_app
      [Seek 2, StartSelection, Seek 5, EndSelection,
       Seek 4, StartSelection, Seek 8, EndSelection,
       Seek 10, StartSelection, Seek 12, EndSelection])) \<and>
   sorted_by_start (segments (foldl ui_step initial_app
      [Seek 2, StartSelection, Seek 5, EndSelection,
       Seek 4, StartSelection, Seek 8, EndSelection,
       Seek 10, StartSelection, Seek 12, EndSelection]))"
  using committed_segments_disjoint_sorted
    [of "[Seek 2, StartSelection, Seek 5, EndSelection,
          Seek 4, StartSelection, Seek 8, EndSelection,
          Seek 10, StartSelection, Seek 12, EndSelection]"]
  by (simp add: initial_app_def startSelection_def endSelection_def merge_loop_0
      toFixed2_def checkOverlap_def mergeSegments_def segmentColors_def)

section \<open>Sweeps and cleanups only take away\<close>

lemma foldl_invariant:
  "P s \<Longrightarrow> (\<And>s x. P s \<Longrightarrow> P (g s x)) \<Longrightarrow> P (foldl g s xs)"
  by (induction xs arbitrary: s) auto

lemma foldl_reaches:
  assumes "x \<in> set xs" and "R s"
    and "\<And>s y. R s \<Longrightarrow> R (g s y)"
    and "\<And>s. R s \<Longrightarrow> Q (g s x)"
    and "\<And>s y. R s \<Longrightarrow> Q s \<Longrightarrow> Q (g s y)"
  shows "Q (foldl g s xs)"
proof -
  from assms(1) obtain ys zs where xs: "xs = ys @ x # zs"
    by (auto dest: split_list)
  have R1: "R (foldl g s ys)"
    using assms(2,3) by (rule foldl_invariant)
  then have Q1: "Q (g (foldl g s ys) x)" and R2: "R (g (foldl g s ys) x)"
    using assms(3,4) by auto
  have "R (foldl g (g (foldl g s ys) x) zs) \<and> Q (foldl g (g (foldl g s ys) x) zs)"
    by (rule foldl_invariant [where P = "\<lambda>s. R s \<and> Q s"]) (use R2 Q1 assms(3,5) in auto)
  then show ?thesis by (simp add: xs)
qed

lemma in_use_entry: "in_use s p = (case entry s p of None \<Rightarrow> False | Some data \<Rightarrow> inUse data)"
  by (simp add: in_use_def entry_def)

lemma shrinks_refl: "shrinks s s"
  by (simp add: shrinks_def)

lemma shrinks_entry:
  assumes "shrinks s s'"
  shows "entry s' p = entry s p \<or>
         (entry s' p = None \<and> \<not> in_use s p \<and> p \<in> disk s \<and> p \<notin> disk s')"
proof -
  from assms have "\<forall>p. entry s' p = entry s p \<or>
      (entry s' p = None \<and> \<not> in_use s p \<and> p \<in> disk s \<and> p \<notin> disk s')"
    by (simp add: shrinks_def)
  then show ?thesis by blast
qed

lemma shrinks_removed:
  assumes "shrinks s s'" and "p \<in> disk s" and "p \<notin> disk s'"
  shows "\<not> in_use s p \<and> entry s' p = None"
proof -
  from assms(1) have "\<forall>p\<in>disk s - disk s'. \<not> in_use s p \<and> entry s' p = None \<and> p \<notin> unlink_throws s"
    by (simp add: shrinks_def)
  with assms(2,3) show ?thesis by blast
qed

lemma shrinks_stuck:
  assumes "shrinks s s'" and "p \<in> disk s" and "p \<in> unlink_throws s"
  shows "p \<in> disk s'"
proof -
  from assms(1) have "\<forall>p\<in>disk s - disk s'. \<not> in_use s p \<and> entry s' p = None \<and> p \<notin> unlink_throws s"
    by (simp add: shrinks_def)
  with assms(2,3) show ?thesis by blast
qed

lemma shrinks_disk: "shrinks s s' \<Longrightarrow> disk s' \<subseteq> disk s"
  by (simp add: shrinks_def)

lemma shrinks_unlink: "shrinks s s' \<Longrightarrow> unlink_throws s' = unlink_throws s"
  by (simp add: shrinks_def)

lemma shrinksI:
  assumes "unlink_throws s' = unlink_throws s" and "disk s' \<subseteq> disk s"
    and "\<And>p. entry s' p = entry s p \<or>
           (entry s' p = None \<and> \<not> in_use s p \<and> p \<in> disk s \<and> p \<notin> disk s')"
    and "\<And>p. p \<in> disk s \<Longrightarrow> p \<notin> disk s' \<Longrightarrow>
           \<not> in_use s p \<and> entry s' p = None \<and> p \<notin> unlink_throws s"
  shows "shrinks s s'"
  unfolding shrinks_def using assms by blast

lemma shrinks_in_use: "shrinks s s' \<Longrightarrow> in_use s' p \<Longrightarrow> in_use s p"
  using shrinks_entry [of s s' p] by (auto simp: in_use_entry)

lemma shrinks_trans:
  assumes "shrinks s s'" and "shrinks s' s''"
  shows "shrinks s s''"
proof (rule shrinksI)
  show "unlink_throws s'' = unlink_throws s"
    using assms by (simp add: shrinks_unlink)
  show "disk s'' \<subseteq> disk s"
    using shrinks_disk [OF assms(1)] shrinks_disk [OF assms(2)] by blast
next
  fix p
  show "entry s'' p = entry s p \<or>
        (entry s'' p = None \<and> \<not> in_use s p \<and> p \<in> disk s \<and> p \<notin> disk s'')"
    using shrinks_entry [OF assms(1), of p] shrinks_entry [OF assms(2), of p]
      shrinks_disk [OF assms(1)] shrinks_disk [OF assms(2)]
    by (auto simp: in_use_entry)
next
  fix p assume p: "p \<in> disk s" "p \<notin> disk s''"
  show "\<not> in_use s p \<and> entry s'' p = None \<and> p \<notin> unlink_throws s"
  proof (cases "p \<in> disk s'")
    case True
    from shrinks_removed [OF assms(2) True p(2)]
    have "\<not> in_use s' p" and "entry s'' p = None" by simp_all
    moreover have "p \<notin> unlink_throws s"
      using shrinks_stuck [OF assms(2) True] p(2) shrinks_unlink [OF assms(1)] by auto
    ultimately show ?thesis using shrinks_entry [OF assms(1), of p]
      by (auto simp: in_use_entry)
  next
    case False
    from shrinks_removed [OF assms(1) p(1) False]
    have "\<not> in_use s p" and "entry s' p = None" by simp_all
    moreover have "p \<notin> unlink_throws s"
      using shrinks_stuck [OF assms(1) p(1)] False by auto
    ultimately show ?thesis using shrinks_entry [OF assms(2), of p] by auto
  qed
qed

lemma deleteFile_clients [simp]: "clients (snd (deleteFile s f ty)) = clients s"
  by (simp add: deleteFile_def)

lemma deleteFile_tokens [simp]: "downloadTokens (snd (deleteFile s f ty)) = downloadTokens s"
  by (simp add: deleteFile_def)

lemma entry_delete:
  "entry (s\<lparr> disk := D, fileTracker := (fileTracker s)(ty := AList.delete f (fileTracker s ty)) \<rparr>) p =
     (if p = (ty, f) then None else entry s p)"
  by (cases p) (auto simp: entry_def delete_conv')

lemma deleteFile_shrinks: "shrinks s (snd (deleteFile s f ty))"
proof (cases "fst (deleteFile s f ty)")
  case False
  then have "snd (deleteFile s f ty) = s"
    by (simp add: deleteFile_def split: if_splits)
  then show ?thesis by (simp add: shrinks_refl)
next
  case True
  then have del: "snd (deleteFile s f ty) =
      s\<lparr> disk := disk s - {(ty, f)},
         fileTracker := (fileTracker s)(ty := AList.delete f (fileTracker s ty)) \<rparr>"
    and free: "\<not> in_use s (ty, f)" "(ty, f) \<notin> unlink_throws s" "(ty, f) \<in> disk s"
    by (simp_all add: deleteFile_def in_use_def split: if_splits)
  show ?thesis
    unfolding del
    by (rule shrinksI) (use free in \<open>auto simp: entry_delete\<close>)
qed

lemma deleteFile_gone:
  "\<not> in_use s (ty, f) \<Longrightarrow> (ty, f) \<notin> unlink_throws s \<Longrightarrow> (ty, f) \<notin> disk (snd (deleteFile s f ty))"
  by (auto simp: deleteFile_def in_use_def split: option.splits)

lemma shrinks_foldl:
  "(\<And>s x. shrinks s (g s x)) \<Longrightarrow> shrinks s (foldl g s xs)"
proof (induction xs arbitrary: s)
  case Nil
  show ?case by (simp add: shrinks_refl)
next
  case (Cons x xs)
  have "shrinks s (g s x)" by (rule Cons.prems)
  moreover have "shrinks (g s x) (foldl g (g s x) xs)" by (rule Cons.IH) (rule Cons.prems)
  ultimately show ?case by (simp add: shrinks_trans)
qed

lemma shrinks_clients_update: "shrinks s s' \<Longrightarrow> shrinks s (s'\<lparr> clients := c \<rparr>)"
  by (simp add: shrinks_def entry_def)

lemma shrinks_tokens_update: "shrinks s (s\<lparr> downloadTokens := c \<rparr>)"
  by (simp add: shrinks_def entry_def)

lemma cleanupClientFiles_shrinks: "shrinks s (cleanupClientFiles s cid)"
proof (cases "map_of (clients s) cid")
  case None
  then show ?thesis by (simp add: cleanupClientFiles_def shrinks_refl)
next
  case (Some c)
  have "shrinks s (foldl (\<lambda>s (filename, type). snd (deleteFile s filename type)) s (files c))"
    by (rule shrinks_foldl) (auto simp: deleteFile_shrinks)
  then show ?thesis using Some
    by (simp add: cleanupClientFiles_def Let_def shrinks_clients_update)
qed

lemma sweep_tracker_shrinks: "shrinks s (sweep_tracker now ty s)"
  unfolding sweep_tracker_def
  by (rule shrinks_foldl) (auto simp: deleteFile_shrinks shrinks_refl split: option.splits)

lemma sweep_clients_shrinks: "shrinks s (sweep_clients now s)"
  unfolding sweep_clients_def
  by (rule shrinks_foldl) (auto simp: cleanupClientFiles_shrinks shrinks_refl split: option.splits)

lemma sweep_tokens_shrinks: "shrinks s (sweep_tokens now s)"
  unfolding sweep_tokens_def
  by (rule shrinks_foldl) (auto simp: shrinks_tokens_update shrinks_refl split: option.splits)

lemma scheduledCleanup_shrinks: "shrinks s (scheduledCleanup now s)"
proof -
  let ?a = "sweep_tracker now Upload s"
  let ?b = "sweep_tracker now Output ?a"
  let ?c = "sweep_tracker now Temp ?b"
  let ?d = "sweep_clients now ?c"
  have "shrinks s ?b"
    by (rule shrinks_trans [OF sweep_tracker_shrinks sweep_tracker_shrinks])
  then have "shrinks s ?c"
    by (rule shrinks_trans [OF _ sweep_tracker_shrinks])
  then have "shrinks s ?d"
    by (rule shrinks_trans [OF _ sweep_clients_shrinks])
  then have "shrinks s (sweep_tokens now ?d)"
    by (rule shrinks_trans [OF _ sweep_tokens_shrinks])
  then show ?thesis by (simp add: scheduledCleanup_def)
qed

lemma foldl_deleteFile_clients [simp]:
  "clients (foldl (\<lambda>s (filename, type). snd (deleteFile s filename type)) s xs) = clients s"
  by (induction xs arbitrary: s) (auto simp: case_prod_beta)

lemma foldl_deleteFile_tokens [simp]:
  "downloadTokens (foldl (\<lambda>s (filename, type). snd (deleteFile s filename type)) s xs) = downloadTokens s"
  by (induction xs arbitrary: s) (auto simp: case_prod_beta)

lemma cleanupClientFiles_clients:
  "map_of (clients (cleanupClientFiles s k)) = (map_of (clients s))(k := None)"
  by (auto simp: cleanupClientFiles_def Let_def delete_conv' split: option.splits)

lemma cleanupClientFiles_tokens [simp]:
  "downloadTokens (cleanupClientFiles s k) = downloadTokens s"
  by (simp add: cleanupClientFiles_def Let_def split: option.splits)

lemma sweep_tracker_clients [simp]: "clients (sweep_tracker now ty s) = clients s"
  unfolding sweep_tracker_def
  by (rule foldl_invariant [where P = "\<lambda>t. clients t = clients s"]) (auto split: option.splits)

lemma sweep_tracker_tokens [simp]: "downloadTokens (sweep_tracker now ty s) = downloadTokens s"
  unfolding sweep_tracker_def
  by (rule foldl_invariant [where P = "\<lambda>t. downloadTokens t = downloadTokens s"])
     (auto split: option.splits)

lemma sweep_clients_tokens [simp]: "downloadTokens (sweep_clients now s) = downloadTokens s"
  unfolding sweep_clients_def
  by (rule foldl_invariant [where P = "\<lambda>t. downloadTokens t = downloadTokens s"])
     (auto split: option.splits)

lemma sweep_tokens_clients [simp]: "clients (sweep_tokens now s) = clients s"
  unfolding sweep_tokens_def
  by (rule foldl_invariant [where P = "\<lambda>t. clients t = clients s"]) (auto split: option.splits)

lemma sweep_tokens_disk [simp]: "disk (sweep_tokens now s) = disk s"
  unfolding sweep_tokens_def
  by (rule foldl_invariant [where P = "\<lambda>t. disk t = disk s"]) (auto split: option.splits)

lemma sweep_tokens_fileTracker [simp]: "fileTracker (sweep_tokens now s) = fileTracker s"
  unfolding sweep_tokens_def
  by (rule foldl_invariant [where P = "\<lambda>t. fileTracker t = fileTracker s"])
     (auto split: option.splits)

lemma map_of_key: "map_of al k = Some v \<Longrightarrow> k \<in> set (map fst al)"
  by (induction al) (auto split: if_splits)

text \<open>The token loop drops exactly the expired tokens.\<close>

lemma sweep_tokens_expired:
  assumes "map_of (downloadTokens s) token = Some data" and "now - created data > maxAge"
  shows "map_of (downloadTokens (sweep_tokens now s)) token = None"
  unfolding sweep_tokens_def
proof (rule foldl_reaches [where x = token
      and R = "\<lambda>t. map_of (downloadTokens t) token = Some data \<or> map_of (downloadTokens t) token = None"])
  show "token \<in> set (map fst (downloadTokens s))"
    using assms(1) by (rule map_of_key)
  show "map_of (downloadTokens s) token = Some data \<or> map_of (downloadTokens s) token = None"
    using assms(1) by simp
qed (use assms(2) in \<open>auto simp: delete_conv' split: option.splits\<close>)

lemma sweep_tokens_absent:
  "map_of (downloadTokens s) token = None \<Longrightarrow> map_of (downloadTokens (sweep_tokens now s)) token = None"
  unfolding sweep_tokens_def
  by (rule foldl_invariant [where P = "\<lambda>t. map_of (downloadTokens t) token = None"])
     (auto simp: delete_conv' split: option.splits)

lemma scheduledCleanup_token_expired:
  "map_of (downloadTokens s) token = Some data \<Longrightarrow> now - created data > maxAge \<Longrightarrow>
   map_of (downloadTokens (scheduledCleanup now s)) token = None"
  by (simp add: scheduledCleanup_def sweep_tokens_expired)

lemma scheduledCleanup_token_absent:
  "map_of (downloadTokens s) token = None \<Longrightarrow>
   map_of (downloadTokens (scheduledCleanup now s)) token = None"
  by (simp add: scheduledCleanup_def sweep_tokens_absent)

text \<open>The file loop of one tracker reaches every entry that is old and not in use.\<close>

lemma sweep_tracker_gone:
  assumes sh: "shrinks s0 s" and e: "entry s0 (ty, f) = Some d" and free: "\<not> inUse d"
    and old: "now - timestamp d > maxAge" and ok: "(ty, f) \<notin> unlink_throws s0"
  shows "(ty, f) \<notin> disk (sweep_tracker now ty s)"
proof (cases "entry s (ty, f) = entry s0 (ty, f)")
  case False
  with shrinks_entry [OF sh, of "(ty, f)"] have "(ty, f) \<notin> disk s" by auto
  with shrinks_disk [OF sweep_tracker_shrinks, of now ty s] show ?thesis by blast
next
  case True
  with e have "map_of (fileTracker s ty) f = Some d" by (simp add: entry_def)
  then have key: "f \<in> set (map fst (fileTracker s ty))" by (rule map_of_key)
  show ?thesis
    unfolding sweep_tracker_def
  proof (rule foldl_reaches [where x = f and R = "\<lambda>t. shrinks s t"
        and Q = "\<lambda>t. (ty, f) \<notin> disk t", OF key shrinks_refl])
    fix t y assume "shrinks s t"
    moreover have "shrinks t (case map_of (fileTracker t ty) y of None \<Rightarrow> t
        | Some data \<Rightarrow> if \<not> inUse data \<and> maxAge < now - timestamp data
            then snd (deleteFile t y ty) else t)" (is "shrinks t ?t'")
      by (auto simp: deleteFile_shrinks shrinks_refl split: option.splits)
    ultimately show "shrinks s ?t'" by (rule shrinks_trans)
    assume "(ty, f) \<notin> disk t"
    with shrinks_disk [OF \<open>shrinks t ?t'\<close>] show "(ty, f) \<notin> disk ?t'" by blast
  next
    fix t assume st: "shrinks s t"
    show "(ty, f) \<notin> disk (case map_of (fileTracker t ty) f of None \<Rightarrow> t
        | Some data \<Rightarrow> if \<not> inUse data \<and> maxAge < now - timestamp data
            then snd (deleteFile t f ty) else t)"
    proof (cases "entry t (ty, f) = entry s (ty, f)")
      case False
      with shrinks_entry [OF st, of "(ty, f)"] show ?thesis
        by (auto simp: entry_def)
    next
      case same: True
      with True e have et: "map_of (fileTracker t ty) f = Some d" by (simp add: entry_def)
      then have "\<not> in_use t (ty, f)" using free by (simp add: in_use_def)
      moreover have "(ty, f) \<notin> unlink_throws t"
        using ok shrinks_unlink [OF st] shrinks_unlink [OF sh] by simp
      ultimately have "(ty, f) \<notin> disk (snd (deleteFile t f ty))" by (rule deleteFile_gone)
      with et free old show ?thesis by simp
    qed
  qed
qed

lemma scheduledCleanup_gone:
  assumes e: "map_of (fileTracker s ty) f = Some d" and free: "\<not> inUse d"
    and old: "now - timestamp d > maxAge" and ok: "(ty, f) \<notin> unlink_throws s"
  shows "(ty, f) \<notin> disk (scheduledCleanup now s)"
proof -
  let ?a = "sweep_tracker now Upload s"
  let ?b = "sweep_tracker now Output ?a"
  let ?c = "sweep_tracker now Temp ?b"
  from e have e': "entry s (ty, f) = Some d" by (simp add: entry_def)
  have sa: "shrinks s ?a" by (rule sweep_tracker_shrinks)
  have sb: "shrinks s ?b" by (rule shrinks_trans [OF sa sweep_tracker_shrinks])
  have sc: "shrinks s ?c" by (rule shrinks_trans [OF sb sweep_tracker_shrinks])
  have ab: "shrinks ?a ?b" and bc: "shrinks ?b ?c" by (rule sweep_tracker_shrinks)+
  have "(ty, f) \<notin> disk ?c"
  proof (cases ty)
    case Upload
    with sweep_tracker_gone [OF shrinks_refl e' free old ok] have "(ty, f) \<notin> disk ?a" by simp
    with shrinks_disk [OF ab] shrinks_disk [OF bc] show ?thesis by blast
  next
    case Output
    with sweep_tracker_gone [OF sa e' free old ok] have "(ty, f) \<notin> disk ?b" by simp
    with shrinks_disk [OF bc] show ?thesis by blast
  next
    case Temp
    with sweep_tracker_gone [OF sb e' free old ok] show ?thesis by simp
  qed
  moreover have "shrinks ?c (scheduledCleanup now s)"
    unfolding scheduledCleanup_def
    by (rule shrinks_trans [OF sweep_clients_shrinks sweep_tokens_shrinks])
  ultimately show ?thesis using shrinks_disk by blast
qed

text \<open>Cleaning a session up reaches every file of its list that is not in use.\<close>

lemma cleanupClientFiles_gone:
  assumes sh: "shrinks s0 s" and c: "map_of (clients s) cid = Some c"
    and x: "(f, ty) \<in> set (files c)" and free: "\<not> in_use s0 (ty, f)"
    and ok: "(ty, f) \<notin> unlink_throws s0"
  shows "(ty, f) \<notin> disk (cleanupClientFiles s cid)"
proof -
  have "(ty, f) \<notin> disk (foldl (\<lambda>s (filename, type). snd (deleteFile s filename type)) s (files c))"
  proof (rule foldl_reaches [where x = "(f, ty)" and R = "\<lambda>t. shrinks s0 t"
        and Q = "\<lambda>t. (ty, f) \<notin> disk t", OF x sh])
    fix t y assume t: "shrinks s0 t"
    have step: "shrinks t (case y of (filename, type) \<Rightarrow> snd (deleteFile t filename type))"
      by (cases y) (simp add: deleteFile_shrinks)
    with t show "shrinks s0 (case y of (filename, type) \<Rightarrow> snd (deleteFile t filename type))"
      by (rule shrinks_trans)
    assume "(ty, f) \<notin> disk t"
    with shrinks_disk [OF step]
    show "(ty, f) \<notin> disk (case y of (filename, type) \<Rightarrow> snd (deleteFile t filename type))"
      by blast
  next
    fix t assume t: "shrinks s0 t"
    have "\<not> in_use t (ty, f)" using shrinks_in_use [OF t] free by blast
    moreover have "(ty, f) \<notin> unlink_throws t" using ok shrinks_unlink [OF t] by simp
    ultimately have "(ty, f) \<notin> disk (snd (deleteFile t f ty))" by (rule deleteFile_gone)
    then show "(ty, f) \<notin> disk (case (f, ty) of (filename, type) \<Rightarrow> snd (deleteFile t filename type))"
      by simp
  qed
  with c show ?thesis by (simp add: cleanupClientFiles_def Let_def)
qed

lemma sweep_clients_step_shrinks:
  "shrinks t (case map_of (clients t) k of None \<Rightarrow> t
     | Some c \<Rightarrow> if now - lastActivity c > heartbeatTimeout then cleanupClientFiles t k else t)"
  by (auto simp: cleanupClientFiles_shrinks shrinks_refl split: option.splits)

lemma sweep_clients_step_clients:
  "map_of (clients (case map_of (clients t) k of None \<Rightarrow> t
     | Some c \<Rightarrow> if now - lastActivity c > heartbeatTimeout then cleanupClientFiles t k else t)) cid
   = (if cid = k \<and> (\<exists>c. map_of (clients t) k = Some c \<and> now - lastActivity c > heartbeatTimeout)
      then None else map_of (clients t) cid)"
  by (auto simp: cleanupClientFiles_clients split: option.splits)

lemma sweep_clients_removed:
  assumes c: "map_of (clients s) cid = Some c" and stale: "now - lastActivity c > heartbeatTimeout"
  shows "map_of (clients (sweep_clients now s)) cid = None"
  unfolding sweep_clients_def
proof (rule foldl_reaches [where x = cid
      and R = "\<lambda>t. map_of (clients t) cid = Some c \<or> map_of (clients t) cid = None"])
  show "cid \<in> set (map fst (clients s))" using c by (rule map_of_key)
  show "map_of (clients s) cid = Some c \<or> map_of (clients s) cid = None" using c by simp
qed (use stale in \<open>auto simp: sweep_clients_step_clients simp del: split_paired_All\<close>)

lemma sweep_clients_gone:
  assumes sh: "shrinks s0 s" and c: "map_of (clients s) cid = Some c"
    and stale: "now - lastActivity c > heartbeatTimeout"
    and x: "(f, ty) \<in> set (files c)" and free: "\<not> in_use s0 (ty, f)"
    and ok: "(ty, f) \<notin> unlink_throws s0"
  shows "(ty, f) \<notin> disk (sweep_clients now s)"
  unfolding sweep_clients_def
proof (rule foldl_reaches [where x = cid
      and R = "\<lambda>t. shrinks s0 t \<and>
                 (map_of (clients t) cid = Some c \<or> (ty, f) \<notin> disk t)"
      and Q = "\<lambda>t. (ty, f) \<notin> disk t"])
  show "cid \<in> set (map fst (clients s))" using c by (rule map_of_key)
  show "shrinks s0 s \<and> (map_of (clients s) cid = Some c \<or> (ty, f) \<notin> disk s)"
    using sh c by simp
next
  fix t k
  let ?t' = "case map_of (clients t) k of None \<Rightarrow> t
     | Some c \<Rightarrow> if heartbeatTimeout < now - lastActivity c then cleanupClientFiles t k else t"
  assume R: "shrinks s0 t \<and> (map_of (clients t) cid = Some c \<or> (ty, f) \<notin> disk t)"
  have step: "shrinks t ?t'" by (rule sweep_clients_step_shrinks)
  have "shrinks s0 ?t'" using R step by (blast intro: shrinks_trans)
  moreover have "map_of (clients ?t') cid = Some c \<or> (ty, f) \<notin> disk ?t'"
  proof (cases "(ty, f) \<in> disk t")
    case False
    with shrinks_disk [OF step] show ?thesis by blast
  next
    case True
    with R have ct: "map_of (clients t) cid = Some c" by simp
    show ?thesis
    proof (cases "cid = k")
      case False
      with ct show ?thesis by (simp add: sweep_clients_step_clients)
    next
      case same: True
      from R have "shrinks s0 t" by simp
      from cleanupClientFiles_gone [OF this ct x free ok]
      show ?thesis using ct stale same by simp
    qed
  qed
  ultimately show "shrinks s0 ?t' \<and> (map_of (clients ?t') cid = Some c \<or> (ty, f) \<notin> disk ?t')" ..
  assume "(ty, f) \<notin> disk t"
  with shrinks_disk [OF step] show "(ty, f) \<notin> disk ?t'" by blast
next
  fix t
  assume R: "shrinks s0 t \<and> (map_of (clients t) cid = Some c \<or> (ty, f) \<notin> disk t)"
  show "(ty, f) \<notin> disk (case map_of (clients t) cid of None \<Rightarrow> t
     | Some c \<Rightarrow> if heartbeatTimeout < now - lastActivity c then cleanupClientFiles t cid else t)"
  proof (cases "map_of (clients t) cid = Some c")
    case True
    from R have "shrinks s0 t" by simp
    from cleanupClientFiles_gone [OF this True x free ok] show ?thesis
      using True stale by simp
  next
    case False
    with R have "(ty, f) \<notin> disk t" by simp
    with shrinks_disk [OF sweep_clients_step_shrinks [where t = t and k = cid and now = now]] show ?thesis by blast
  qed
qed

lemma trackFile_tokens [simp]: "downloadTokens (trackFile s now f ty cid) = downloadTokens s"
  by (simp add: trackFile_def Let_def split: option.splits)

lemma trackFile_disk [simp]: "disk (trackFile s now f ty cid) = disk s"
  by (simp add: trackFile_def Let_def split: option.splits)

lemma trackFile_unlink_throws [simp]: "unlink_throws (trackFile s now f ty cid) = unlink_throws s"
  by (simp add: trackFile_def Let_def split: option.splits)

lemma trackFile_fileTracker:
  "fileTracker (trackFile s now f ty cid) =
     (fileTracker s)(ty := AList.update f \<lparr> timestamp = now, clientId = cid, inUse = False \<rparr>
        (fileTracker s ty))"
  by (simp add: trackFile_def Let_def update_conv' split: option.splits)

lemma trackFile_clients:
  "clients (trackFile s now f ty cid) =
     AList.update cid
       (case map_of (clients s) cid of
          None \<Rightarrow> \<lparr> lastActivity = now, files = [(f, ty)], originalName = None \<rparr>
        | Some c \<Rightarrow> c\<lparr> files := files c @ [(f, ty)], lastActivity := now \<rparr>)
       (clients s)"
  by (simp add: trackFile_def Let_def update_conv' split: option.splits)

lemma download_request_absent:
  "map_of (downloadTokens s) token = None \<Longrightarrow>
   download_request s token = (Inl (Status404 ''Download link has expired or is invalid.''), s)"
  by (simp add: download_request_def)

lemma set_inUse_tokens [simp]: "downloadTokens (set_inUse s f b) = downloadTokens s"
  by (simp add: set_inUse_def split: option.splits)

lemma set_inUse_disk [simp]: "disk (set_inUse s f b) = disk s"
  by (simp add: set_inUse_def split: option.splits)

lemma download_request_tr_token:
  "download_request s token = (Inr tr, s1) \<Longrightarrow> tr_token tr = token"
  by (auto simp: download_request_def split: option.splits if_splits)

lemma download_callback_token:
  "map_of (downloadTokens (download_callback s tr)) (tr_token tr) = None"
  by (simp add: download_callback_def Let_def delete_conv')

lemma set_inUse_tracked:
  "(\<exists>y. map_of (fileTracker (set_inUse s f b) Output) f = Some y) =
   (\<exists>y. map_of (fileTracker s Output) f = Some y)"
  by (auto simp: set_inUse_def update_conv' split: option.splits)

lemma download_request_again:
  assumes "download_request s token = (Inr tr, s1)"
  shows "fst (download_request s1 token) = Inr tr"
proof -
  from assms obtain data where tk: "map_of (downloadTokens s) token = Some data"
    and d: "(Output, tok_filename data) \<in> disk s"
    and tr: "tr = \<lparr> tr_token = token, tr_filename = tok_filename data,
                    tr_downloadName = tok_originalName data @ ''-vidsnip-edited.mp4'',
                    tr_fileData = (\<exists>y. map_of (fileTracker s Output) (tok_filename data) = Some y) \<rparr>"
    and s1: "s1 = set_inUse s (tok_filename data) True"
    by (auto simp: download_request_def split: option.splits if_splits)
  show ?thesis
    unfolding s1 tr by (simp add: download_request_def tk d set_inUse_tracked)
qed

section \<open>The run of the pipeline, spelled out\<close>

lemma performed_all: "list_all ok cs \<Longrightarrow> performed ok cs = cs"
  by (induction cs) auto

lemma performed_fails: "\<not> list_all ok cs \<Longrightarrow> \<not> list_all ok (performed ok cs)"
  by (induction cs) auto

lemma performed_take: "performed ok cs = take (length (performed ok cs)) cs"
  by (induction cs) auto

lemma performed_subset: "set (performed ok cs) \<subseteq> set cs"
  by (induction cs) auto

lemma cut_segments_ok:
  "fst (cut_segments e inp zs s calls) = list_all (encoder_ok e) (map (cut_of inp) zs)"
  by (induction e inp zs s calls rule: cut_segments.induct) (simp_all add: cut_of_def Let_def)

lemma cut_segments_calls:
  "snd (snd (cut_segments e inp zs s calls)) = calls @ performed (encoder_ok e) (map (cut_of inp) zs)"
  by (induction e inp zs s calls rule: cut_segments.induct) (simp_all add: cut_of_def Let_def)

lemma cut_segments_fileTracker [simp]:
  "fileTracker (fst (snd (cut_segments e inp zs s calls))) = fileTracker s"
  by (induction e inp zs s calls rule: cut_segments.induct) (simp_all add: Let_def)

lemma cut_segments_clients [simp]:
  "clients (fst (snd (cut_segments e inp zs s calls))) = clients s"
  by (induction e inp zs s calls rule: cut_segments.induct) (simp_all add: Let_def)

lemma cut_segments_tokens [simp]:
  "downloadTokens (fst (snd (cut_segments e inp zs s calls))) = downloadTokens s"
  by (induction e inp zs s calls rule: cut_segments.induct) (simp_all add: Let_def)

lemma cut_calls_eq:
  "map (cut_of (Upload, req_filename req))
     (zip (req_segments req) (map (tempFile e) [0..<length (req_segments req)])) = cut_calls e req"
  by (simp add: cut_calls_def cut_of_def zip_map2 case_prod_beta)

lemma cut_calls_no_concat: "\<not> list_ex is_concat (cut_calls e req)"
  by (auto simp: cut_calls_def list_ex_iff)

lemma length_cut_calls: "length (cut_calls e req) = length (req_segments req)"
  by (simp add: cut_calls_def)

lemma nth_cut_calls:
  "i < length (req_segments req) \<Longrightarrow>
   cut_calls e req ! i =
     Cut (Upload, req_filename req) (seg_start (req_segments req ! i))
       (seg_end (req_segments req ! i)) (Temp, tempFile e i)"
  by (simp add: cut_calls_def)

lemma foldl_trackFile_tokens [simp]:
  "downloadTokens (foldl (\<lambda>s f. trackFile s now f ty cid) s fs) = downloadTokens s"
  by (induction fs arbitrary: s) auto

lemma foldl_deleteFile_Temp_tokens [simp]:
  "downloadTokens (foldl (\<lambda>s f. snd (deleteFile s f ty)) s fs) = downloadTokens s"
  by (induction fs arbitrary: s) auto

lemma foldl_trackFile_tracked:
  assumes "f \<in> set fs"
  shows "map_of (fileTracker (foldl (\<lambda>s f. trackFile s now f ty cid) s fs) ty) f =
           Some \<lparr> timestamp = now, clientId = cid, inUse = False \<rparr>"
  by (rule foldl_reaches [where x = f and R = "\<lambda>t. True", OF assms])
     (auto simp: trackFile_fileTracker update_conv')

lemma trackFile_keeps_owner:
  assumes "\<exists>d. map_of (fileTracker s ty) f = Some d \<and> clientId d = cid"
  shows "\<exists>d. map_of (fileTracker (trackFile s now f' ty' cid) ty) f = Some d \<and> clientId d = cid"
  using assms by (auto simp: trackFile_fileTracker update_conv')

lemma process_valid:
  assumes "req_filename req \<noteq> []" and "req_segments req \<noteq> []"
    and "(Upload, req_filename req) \<in> disk s"
    and res: "process s e req = (resp, s', calls)"
  shows "calls = (if list_all (encoder_ok e) (cut_calls e req)
                  then (if write_throws e then cut_calls e req else cut_calls e req @ [concat_call e])
                  else performed (encoder_ok e) (cut_calls e req))"
    and "resp = (if pipeline_ok e req then Inr (new_token e)
                 else Inl (Status500 ''Video processing failed''))"
    and "\<not> pipeline_ok e req \<Longrightarrow> downloadTokens s' = downloadTokens s"
    and "pipeline_ok e req \<Longrightarrow>
           \<exists>n. map_of (downloadTokens s') (new_token e) =
                 Some \<lparr> tok_filename = outputFilename e, created = now_done e, tok_originalName = n \<rparr>"
    and "i < length (req_segments req) \<Longrightarrow> \<not> pipeline_ok e req \<Longrightarrow>
           \<exists>d. map_of (fileTracker s' Temp) (tempFile e i) = Some d \<and> clientId d = req_clientId req"
    and "list_all (encoder_ok e) (cut_calls e req) \<Longrightarrow> \<not> write_throws e \<Longrightarrow> \<not> encoder_ok e (concat_call e) \<Longrightarrow>
           \<exists>d. map_of (fileTracker s' Temp) (listFile e) = Some d \<and> clientId d = req_clientId req"
proof -
  let ?tempFiles = "map (tempFile e) [0..<length (req_segments req)]"
  let ?s1 = "foldl (\<lambda>s f. trackFile s (now_start e) f Temp (req_clientId req)) s ?tempFiles"
  let ?cs = "cut_segments e (Upload, req_filename req) (zip (req_segments req) ?tempFiles) ?s1 []"
  obtain ok s2 cl where cs: "?cs = (ok, s2, cl)" by (cases ?cs) auto
  have ok: "ok = list_all (encoder_ok e) (cut_calls e req)"
    using cut_segments_ok [of e "(Upload, req_filename req)" "zip (req_segments req) ?tempFiles" ?s1 "[]"]
    by (simp add: cs cut_calls_eq)
  have cl: "cl = performed (encoder_ok e) (cut_calls e req)"
    using cut_segments_calls [of e "(Upload, req_filename req)" "zip (req_segments req) ?tempFiles" ?s1 "[]"]
    by (simp add: cs cut_calls_eq)
  have ft2: "fileTracker s2 = fileTracker ?s1"
    using cut_segments_fileTracker [of e "(Upload, req_filename req)" "zip (req_segments req) ?tempFiles" ?s1 "[]"]
    by (simp add: cs)
  have tk2: "downloadTokens s2 = downloadTokens s"
    using cut_segments_tokens [of e "(Upload, req_filename req)" "zip (req_segments req) ?tempFiles" ?s1 "[]"]
    by (simp add: cs)
  have tracked2: "\<exists>d. map_of (fileTracker s2 Temp) (tempFile e i) = Some d \<and> clientId d = req_clientId req"
    if "i < length (req_segments req)" for i
  proof -
    from that have "tempFile e i \<in> set ?tempFiles" by simp
    from foldl_trackFile_tracked [OF this] show ?thesis by (simp add: ft2)
  qed
  note unfolded = res [unfolded process_def Let_def, simplified assms(1-3) cs, simplified]
  show "calls = (if list_all (encoder_ok e) (cut_calls e req)
                  then (if write_throws e then cut_calls e req else cut_calls e req @ [concat_call e])
                  else performed (encoder_ok e) (cut_calls e req))"
    using unfolded ok cl
    by (auto simp: concat_call_def performed_all split: if_splits)
  show "resp = (if pipeline_ok e req then Inr (new_token e)
                 else Inl (Status500 ''Video processing failed''))"
    using unfolded ok
    by (auto simp: pipeline_ok_def concat_call_def split: if_splits)
  show "downloadTokens s' = downloadTokens s" if "\<not> pipeline_ok e req"
    using unfolded ok that tk2
    by (auto simp: pipeline_ok_def concat_call_def split: if_splits)
  show "\<exists>n. map_of (downloadTokens s') (new_token e) =
                 Some \<lparr> tok_filename = outputFilename e, created = now_done e, tok_originalName = n \<rparr>"
    if "pipeline_ok e req"
    using unfolded ok that
    by (auto simp: pipeline_ok_def concat_call_def update_conv' split: if_splits)
  show "\<exists>d. map_of (fileTracker s' Temp) (tempFile e i) = Some d \<and> clientId d = req_clientId req"
    if "i < length (req_segments req)" and "\<not> pipeline_ok e req"
  proof -
    have "s' = s2 \<or> s' = trackFile (s2\<lparr> disk := insert (Temp, listFile e) (disk s2) \<rparr>)
                              (now_list e) (listFile e) Temp (req_clientId req)"
      using unfolded ok that(2)
      by (auto simp: pipeline_ok_def concat_call_def split: if_splits)
    then show ?thesis
    proof
      assume "s' = s2"
      with tracked2 [OF that(1)] show ?thesis by simp
    next
      assume s': "s' = trackFile (s2\<lparr> disk := insert (Temp, listFile e) (disk s2) \<rparr>)
                              (now_list e) (listFile e) Temp (req_clientId req)"
      have "\<exists>d. map_of (fileTracker (s2\<lparr> disk := insert (Temp, listFile e) (disk s2) \<rparr>) Temp)
                   (tempFile e i) = Some d \<and> clientId d = req_clientId req"
        using tracked2 [OF that(1)] by simp
      from trackFile_keeps_owner [OF this] show ?thesis by (simp add: s')
    qed
  qed
  show "\<exists>d. map_of (fileTracker s' Temp) (listFile e) = Some d \<and> clientId d = req_clientId req"
    if "list_all (encoder_ok e) (cut_calls e req)" and "\<not> write_throws e"
      and "\<not> encoder_ok e (concat_call e)"
    using unfolded ok that
    by (auto simp: concat_call_def trackFile_fileTracker update_conv' split: if_splits)
qed

lemma process_tokens:
  "downloadTokens (fst (snd (process s e req))) = downloadTokens s \<or>
   (\<exists>d. downloadTokens (fst (snd (process s e req))) = AList.update (new_token e) d (downloadTokens s))"
proof -
  let ?tempFiles = "map (tempFile e) [0..<length (req_segments req)]"
  let ?s1 = "foldl (\<lambda>s f. trackFile s (now_start e) f Temp (req_clientId req)) s ?tempFiles"
  let ?cs = "cut_segments e (Upload, req_filename req) (zip (req_segments req) ?tempFiles) ?s1 []"
  obtain ok s2 cl where cs: "?cs = (ok, s2, cl)" by (cases ?cs) auto
  have tk2: "downloadTokens s2 = downloadTokens s"
    using cut_segments_tokens [of e "(Upload, req_filename req)" "zip (req_segments req) ?tempFiles" ?s1 "[]"]
    by (simp add: cs)
  show ?thesis
    by (cases ok) (auto simp: process_def Let_def cs tk2)
qed

lemma upload_tokens [simp]: "downloadTokens (upload s now f n cid) = downloadTokens s"
  by (simp add: upload_def Let_def split: option.splits)

lemma heartbeat_tokens [simp]: "downloadTokens (heartbeat s now cid) = downloadTokens s"
  by (simp add: heartbeat_def split: option.splits)

lemma download_request_tokens [simp]:
  "downloadTokens (snd (download_request s token)) = downloadTokens s"
  by (simp add: download_request_def split: option.splits)

lemma server_step_token_absent:
  assumes "map_of (downloadTokens s) token = None" and "\<not> mints token ev"
  shows "map_of (downloadTokens (server_step s ev)) token = None"
proof (cases ev)
  case (EvProcess e req)
  with assms(2) have "new_token e \<noteq> token" by simp
  with process_tokens [of s e req] assms(1) show ?thesis
    by (auto simp: EvProcess update_conv')
next
  case (EvDownloadDone tr)
  with assms(1) show ?thesis
    by (simp add: download_callback_def Let_def delete_conv')
next
  case (EvSweep now)
  with assms(1) show ?thesis by (simp add: scheduledCleanup_token_absent)
qed (use assms(1) in simp_all)

lemma run_token_absent:
  "map_of (downloadTokens s) token = None \<Longrightarrow> \<not> list_ex (mints token) evs \<Longrightarrow>
   map_of (downloadTokens (foldl server_step s evs)) token = None"
  by (induction evs arbitrary: s) (simp_all add: server_step_token_absent)

lemma performed_take_append: "take (length (performed ok cs)) (cs @ ys) = performed ok cs"
  by (induction cs) auto

section \<open>The run among other requests\<close>

lemma await_exec_empty:
  "await_exec s ([], []) ok out = (if ok then s\<lparr> disk := insert out (disk s) \<rparr> else s)"
  by (simp add: await_exec_def)

lemma cut_segments_among_Nil:
  "cut_segments_among e inp zs [] s calls = cut_segments e inp zs s calls"
  by (induction e inp zs s calls rule: cut_segments.induct)
     (simp_all add: Let_def next_gap_def await_exec_empty)

lemma process_among_Nil: "process_among s e req [] = process s e req"
proof -
  let ?tempFiles = "map (tempFile e) [0..<length (req_segments req)]"
  let ?s1 = "foldl (\<lambda>s f. trackFile s (now_start e) f Temp (req_clientId req)) s ?tempFiles"
  let ?cs = "cut_segments e (Upload, req_filename req) (zip (req_segments req) ?tempFiles) ?s1 []"
  obtain ok s2 cl where cs: "?cs = (ok, s2, cl)" by (cases ?cs) auto
  have g: "next_gap (drop n []) = ([], [])" for n
    by (simp add: next_gap_def)
  show ?thesis
    by (cases ok) (simp_all add: process_among_def process_def cut_segments_among_Nil cs
        next_gap_def await_exec_empty Let_def)
qed

















lemma upload_Temp [simp]: "fileTracker (upload s now f n cid) Temp = fileTracker s Temp"
  by (simp add: upload_def Let_def trackFile_fileTracker split: option.splits)

lemma heartbeat_fileTracker [simp]: "fileTracker (heartbeat s now cid) = fileTracker s"
  by (simp add: heartbeat_def split: option.splits)

lemma set_inUse_Temp [simp]: "fileTracker (set_inUse s f b) Temp = fileTracker s Temp"
  by (simp add: set_inUse_def split: option.splits)


section \<open>The examples evaluated\<close>

text \<open>The operations on a state given field by field, for evaluating the examples.\<close>

lemma trackFile_eval:
  "trackFile \<lparr> fileTracker = ft, clients = cl, downloadTokens = tk, disk = d, unlink_throws = u \<rparr>
     now f ty cid =
   \<lparr> fileTracker = ft(ty := AList.update f \<lparr> timestamp = now, clientId = cid, inUse = False \<rparr> (ft ty)),
     clients = AList.update cid
       (case map_of cl cid of
          None \<Rightarrow> \<lparr> lastActivity = now, files = [(f, ty)], originalName = None \<rparr>
        | Some c \<Rightarrow> c\<lparr> files := files c @ [(f, ty)], lastActivity := now \<rparr>) cl,
     downloadTokens = tk, disk = d, unlink_throws = u \<rparr>"
  by (simp add: trackFile_def Let_def update_conv' split: option.splits)

lemma deleteFile_eval:
  "deleteFile \<lparr> fileTracker = ft, clients = cl, downloadTokens = tk, disk = d, unlink_throws = u \<rparr>
     f ty =
   (if (case map_of (ft ty) f of None \<Rightarrow> False | Some data \<Rightarrow> inUse data)
    then (False, \<lparr> fileTracker = ft, clients = cl, downloadTokens = tk, disk = d, unlink_throws = u \<rparr>)
    else if (ty, f) \<in> d then
      (if (ty, f) \<in> u
       then (False, \<lparr> fileTracker = ft, clients = cl, downloadTokens = tk, disk = d, unlink_throws = u \<rparr>)
       else (True, \<lparr> fileTracker = ft(ty := AList.delete f (ft ty)), clients = cl,
                     downloadTokens = tk, disk = d - {(ty, f)}, unlink_throws = u \<rparr>))
    else (False, \<lparr> fileTracker = ft, clients = cl, downloadTokens = tk, disk = d, unlink_throws = u \<rparr>))"
  by (simp add: deleteFile_def)

lemma example_names:
  "tempFile (run_env ok) 0 = ''temp-0-2000.mp4''"
  "tempFile (run_env ok) (Suc 0) = ''temp-1-2000.mp4''"
  "listFile (run_env ok) = ''list-3000.txt''"
  "outputFilename (run_env ok) = ''processed-2000.mp4''"
  "new_token (run_env ok) = ''dl-5000-7''"
  by (simp_all add: run_env_def tempFile_def listFile_def outputFilename_def new_token_def
      show_int_def show_nat.simps)

lemma example_calls:
  "cut_calls (run_env ok) two_segments =
     [Cut (Upload, ''up.mp4'') 0 2 (Temp, ''temp-0-2000.mp4''),
      Cut (Upload, ''up.mp4'') 5 7 (Temp, ''temp-1-2000.mp4'')]"
  "cut_calls (run_env ok) three_segments =
     [Cut (Upload, ''up.mp4'') 0 2 (Temp, ''temp-0-2000.mp4''),
      Cut (Upload, ''up.mp4'') 5 7 (Temp, ''temp-1-2000.mp4''),
      Cut (Upload, ''up.mp4'') 9 10 (Temp, ''temp-2-2000.mp4'')]"
  "concat_call (run_env ok) = Concat (Temp, ''list-3000.txt'') (Output, ''processed-2000.mp4'')"
  by (simp_all add: run_env_def two_segments_def three_segments_def cut_calls_def concat_call_def
      tempFile_def listFile_def outputFilename_def show_int_def show_nat.simps)

lemma example_env [simp]:
  "encoder_ok (run_env ok) = ok" "write_throws (run_env ok) = False"
  by (simp_all add: run_env_def)

lemma uploaded_server_eq:
  "uploaded_server =
     \<lparr> fileTracker = (\<lambda>type. [])
         (Upload := [(''up.mp4'', \<lparr> timestamp = 1000, clientId = ''c1'', inUse = False \<rparr>)]),
       clients = [(''c1'', \<lparr> lastActivity = 1000, files = [(''up.mp4'', Upload)],
                    originalName = Some ''clip.mp4'' \<rparr>)],
       downloadTokens = [],
       disk = {(Upload, ''up.mp4'')},
       unlink_throws = {} \<rparr>"
  by (simp add: uploaded_server_def upload_def trackFile_def empty_server_def Let_def)

lemma uploaded_valid:
  "req_filename two_segments \<noteq> []" "req_segments two_segments \<noteq> []"
  "(Upload, req_filename two_segments) \<in> disk uploaded_server"
  "req_filename three_segments \<noteq> []" "req_segments three_segments \<noteq> []"
  "(Upload, req_filename three_segments) \<in> disk uploaded_server"
  by (simp_all add: two_segments_def three_segments_def uploaded_server_eq)

lemma issued_on_eq:
  assumes "\<And>f. (Temp, f) \<notin> throws"
  shows "issued_on throws =
     \<lparr> fileTracker = (\<lambda>type. [])
         (Upload := [(''up.mp4'', \<lparr> timestamp = 1000, clientId = ''c1'', inUse = False \<rparr>)],
          Temp := [],
          Output := [(''processed-2000.mp4'', \<lparr> timestamp = 5000, clientId = ''c1'', inUse = False \<rparr>)]),
       clients = [(''c1'', \<lparr> lastActivity = 5000,
                    files = [(''up.mp4'', Upload), (''temp-0-2000.mp4'', Temp),
                             (''temp-1-2000.mp4'', Temp), (''list-3000.txt'', Temp),
                             (''processed-2000.mp4'', Output)],
                    originalName = Some ''clip.mp4'' \<rparr>)],
       downloadTokens = [(''dl-5000-7'', \<lparr> tok_filename = ''processed-2000.mp4'', created = 5000,
                           tok_originalName = ''clip'' \<rparr>)],
       disk = {(Upload, ''up.mp4''), (Output, ''processed-2000.mp4'')},
       unlink_throws = throws \<rparr>"
proof -
  have up: "upload (start_server throws) 1000 ''up.mp4'' ''clip.mp4'' ''c1'' =
     \<lparr> fileTracker = (\<lambda>type. [])
         (Upload := [(''up.mp4'', \<lparr> timestamp = 1000, clientId = ''c1'', inUse = False \<rparr>)]),
       clients = [(''c1'', \<lparr> lastActivity = 1000, files = [(''up.mp4'', Upload)],
                    originalName = Some ''clip.mp4'' \<rparr>)],
       downloadTokens = [], disk = {(Upload, ''up.mp4'')}, unlink_throws = throws \<rparr>"
    by (simp add: start_server_def upload_def trackFile_def empty_server_def Let_def)
  have env: "now_start (run_env ok) = 2000" "now_list (run_env ok) = 3000"
    "now_done (run_env ok) = 5000"
    "parse_name (run_env ok) ''clip.mp4'' = ''clip''" for ok
    by (simp_all add: run_env_def strip_ext_def)
  have req: "req_filename two_segments = ''up.mp4''" "req_clientId two_segments = ''c1''"
    "req_segments two_segments = [\<lparr> seg_start = 0, seg_end = 2, seg_color = ''#0077BE'' \<rparr>,
                       \<lparr> seg_start = 5, seg_end = 7, seg_color = ''#00A8E8'' \<rparr>]"
    by (simp_all add: two_segments_def)
  have upto: "[0..<2] = [0, Suc 0]"
    by (simp add: upt_rec)
  show ?thesis
    unfolding issued_on_def up process_def req
    using assms
    by (simp add: Let_def upto example_names env trackFile_eval deleteFile_eval insert_commute
        insert_Diff_if fun_upd_twist)
qed

lemma issued_server_eq:
  "issued_server =
     \<lparr> fileTracker = (\<lambda>type. [])
         (Upload := [(''up.mp4'', \<lparr> timestamp = 1000, clientId = ''c1'', inUse = False \<rparr>)],
          Temp := [],
          Output := [(''processed-2000.mp4'', \<lparr> timestamp = 5000, clientId = ''c1'', inUse = False \<rparr>)]),
       clients = [(''c1'', \<lparr> lastActivity = 5000,
                    files = [(''up.mp4'', Upload), (''temp-0-2000.mp4'', Temp),
                             (''temp-1-2000.mp4'', Temp), (''list-3000.txt'', Temp),
                             (''processed-2000.mp4'', Output)],
                    originalName = Some ''clip.mp4'' \<rparr>)],
       downloadTokens = [(''dl-5000-7'', \<lparr> tok_filename = ''processed-2000.mp4'', created = 5000,
                           tok_originalName = ''clip'' \<rparr>)],
       disk = {(Upload, ''up.mp4''), (Output, ''processed-2000.mp4'')},
       unlink_throws = {} \<rparr>"
  unfolding issued_server_def by (rule issued_on_eq) simp

lemma stuck_server_eq:
  "stuck_server =
     \<lparr> fileTracker = (\<lambda>type. [])
         (Upload := [(''up.mp4'', \<lparr> timestamp = 1000, clientId = ''c1'', inUse = False \<rparr>)],
          Temp := [],
          Output := [(''processed-2000.mp4'', \<lparr> timestamp = 5000, clientId = ''c1'', inUse = False \<rparr>)]),
       clients = [(''c1'', \<lparr> lastActivity = 5000,
                    files = [(''up.mp4'', Upload), (''temp-0-2000.mp4'', Temp),
                             (''temp-1-2000.mp4'', Temp), (''list-3000.txt'', Temp),
                             (''processed-2000.mp4'', Output)],
                    originalName = Some ''clip.mp4'' \<rparr>)],
       downloadTokens = [(''dl-5000-7'', \<lparr> tok_filename = ''processed-2000.mp4'', created = 5000,
                           tok_originalName = ''clip'' \<rparr>)],
       disk = {(Upload, ''up.mp4''), (Output, ''processed-2000.mp4'')},
       unlink_throws = {(Upload, ''up.mp4'')} \<rparr>"
  unfolding stuck_server_def by (rule issued_on_eq) simp

lemma downloading_server_eq:
  "downloading_server =
     \<lparr> fileTracker = (\<lambda>type. [])
         (Upload := [(''up.mp4'', \<lparr> timestamp = 1000, clientId = ''c1'', inUse = False \<rparr>)],
          Temp := [],
          Output := [(''processed-2000.mp4'', \<lparr> timestamp = 5000, clientId = ''c1'', inUse = True \<rparr>)]),
       clients = [(''c1'', \<lparr> lastActivity = 5000,
                    files = [(''up.mp4'', Upload), (''temp-0-2000.mp4'', Temp),
                             (''temp-1-2000.mp4'', Temp), (''list-3000.txt'', Temp),
                             (''processed-2000.mp4'', Output)],
                    originalName = Some ''clip.mp4'' \<rparr>)],
       downloadTokens = [(''dl-5000-7'', \<lparr> tok_filename = ''processed-2000.mp4'', created = 5000,
                           tok_originalName = ''clip'' \<rparr>)],
       disk = {(Upload, ''up.mp4''), (Output, ''processed-2000.mp4'')},
       unlink_throws = {} \<rparr>"
  by (simp add: downloading_server_def download_request_def issued_server_eq set_inUse_def)

lemma issued_lookup:
  "map_of (downloadTokens issued_server) ''dl-5000-7'' =
     Some \<lparr> tok_filename = ''processed-2000.mp4'', created = 5000, tok_originalName = ''clip'' \<rparr>"
  "map_of (downloadTokens issued_server) ''dl-1-1'' = None"
  by (simp_all add: issued_server_eq)

lemma downloading_lookup:
  "map_of (clients downloading_server) ''c1'' =
     Some \<lparr> lastActivity = 5000,
            files = [(''up.mp4'', Upload), (''temp-0-2000.mp4'', Temp), (''temp-1-2000.mp4'', Temp),
                     (''list-3000.txt'', Temp), (''processed-2000.mp4'', Output)],
            originalName = Some ''clip.mp4'' \<rparr>"
  "map_of (fileTracker downloading_server Upload) ''up.mp4'' =
     Some \<lparr> timestamp = 1000, clientId = ''c1'', inUse = False \<rparr>"
  "map_of (fileTracker downloading_server Output) ''processed-2000.mp4'' =
     Some \<lparr> timestamp = 5000, clientId = ''c1'', inUse = True \<rparr>"
  "disk downloading_server = {(Upload, ''up.mp4''), (Output, ''processed-2000.mp4'')}"
  "unlink_throws downloading_server = {}"
  by (simp_all add: downloading_server_eq)

lemma failed_server_eq:
  "failed_server =
     \<lparr> fileTracker = (\<lambda>type. [])
         (Upload := [(''up.mp4'', \<lparr> timestamp = 1000, clientId = ''c1'', inUse = False \<rparr>)],
          Temp := [(''temp-0-2000.mp4'', \<lparr> timestamp = 2000, clientId = ''c1'', inUse = False \<rparr>),
                   (''temp-1-2000.mp4'', \<lparr> timestamp = 2000, clientId = ''c1'', inUse = False \<rparr>),
                   (''temp-2-2000.mp4'', \<lparr> timestamp = 2000, clientId = ''c1'', inUse = False \<rparr>)]),
       clients = [(''c1'', \<lparr> lastActivity = 2000,
                    files = [(''up.mp4'', Upload), (''temp-0-2000.mp4'', Temp),
                             (''temp-1-2000.mp4'', Temp), (''temp-2-2000.mp4'', Temp)],
                    originalName = Some ''clip.mp4'' \<rparr>)],
       downloadTokens = [],
       disk = {(Upload, ''up.mp4''), (Temp, ''temp-0-2000.mp4'')},
       unlink_throws = {} \<rparr>"
proof -
  have env: "now_start (run_env ok) = 2000" "now_list (run_env ok) = 3000"
    "now_done (run_env ok) = 5000" for ok
    by (simp_all add: run_env_def)
  have req: "req_filename three_segments = ''up.mp4''" "req_clientId three_segments = ''c1''"
    "req_segments three_segments = [\<lparr> seg_start = 0, seg_end = 2, seg_color = ''#0077BE'' \<rparr>,
                       \<lparr> seg_start = 5, seg_end = 7, seg_color = ''#00A8E8'' \<rparr>,
                       \<lparr> seg_start = 9, seg_end = 10, seg_color = ''#00C9FF'' \<rparr>]"
    by (simp_all add: three_segments_def)
  have upto: "[0..<3] = [0, Suc 0, Suc (Suc 0)]"
    by (simp add: upt_rec)
  have third: "tempFile (run_env ok) (Suc (Suc 0)) = ''temp-2-2000.mp4''" for ok
    by (simp add: run_env_def tempFile_def show_int_def show_nat.simps)
  show ?thesis
    unfolding failed_server_def uploaded_server_eq process_def req
    by (simp add: Let_def upto example_names third env trackFile_eval deleteFile_eval
        insert_commute insert_Diff_if fun_upd_twist)
qed

lemma failed_lookup:
  "map_of (fileTracker failed_server Temp) ''temp-1-2000.mp4'' =
     Some \<lparr> timestamp = 2000, clientId = ''c1'', inUse = False \<rparr>"
  "(Temp, ''temp-1-2000.mp4'') \<notin> disk failed_server"
  by (simp_all add: failed_server_eq)


lemma later_old: "later - 1000 > maxAge" "later - 5000 > maxAge" "later - 5000 > heartbeatTimeout"
  by (simp_all add: later_def maxAge_def heartbeatTimeout_def)

section \<open>The claims about the server\<close>

text \<open>
  Claim C2 fails on the code. The endpoint, headed \<^verbatim>\<open>One-time download endpoint\<close>,
  deletes the token in the callback that runs when the transfer has ended, not when it
  serves the request; between the two the token is still in the store. In the example
  the token is redeemed, and while that transfer is running (\<open>downloading_server\<close> is the
  state the first request leaves) a second redemption of the same token is served too,
  with the same file: the redemption has succeeded twice.
\<close>

theorem download_token_served_twice:
  "download_request issued_server ''dl-5000-7'' =
     (Inr \<lparr> tr_token = ''dl-5000-7'', tr_filename = ''processed-2000.mp4'',
            tr_downloadName = ''clip-vidsnip-edited.mp4'', tr_fileData = True \<rparr>,
      downloading_server) \<and>
   map_of (downloadTokens downloading_server) ''dl-5000-7'' =
     Some \<lparr> tok_filename = ''processed-2000.mp4'', created = 5000, tok_originalName = ''clip'' \<rparr> \<and>
   fst (download_request downloading_server ''dl-5000-7'') =
     Inr \<lparr> tr_token = ''dl-5000-7'', tr_filename = ''processed-2000.mp4'',
           tr_downloadName = ''clip-vidsnip-edited.mp4'', tr_fileData = True \<rparr>"
proof -
  have "download_request issued_server ''dl-5000-7'' =
     (Inr \<lparr> tr_token = ''dl-5000-7'', tr_filename = ''processed-2000.mp4'',
            tr_downloadName = ''clip-vidsnip-edited.mp4'', tr_fileData = True \<rparr>,
      downloading_server)"
    by (simp add: downloading_server_def download_request_def issued_server_eq)
  moreover have "map_of (downloadTokens downloading_server) ''dl-5000-7'' =
     Some \<lparr> tok_filename = ''processed-2000.mp4'', created = 5000, tok_originalName = ''clip'' \<rparr>"
    by (simp add: downloading_server_eq)
  moreover have "fst (download_request downloading_server ''dl-5000-7'') =
     Inr \<lparr> tr_token = ''dl-5000-7'', tr_filename = ''processed-2000.mp4'',
           tr_downloadName = ''clip-vidsnip-edited.mp4'', tr_fileData = True \<rparr>"
    by (simp add: download_request_def downloading_server_eq)
  ultimately show ?thesis by blast
qed

text \<open>
  What the endpoint does ensure, for any token and state. Once the callback of a served
  request has run, in whatever state \<open>s2\<close> the transfer has left, the token is out of the
  token store and a later request for it is answered with the not-found failure of an
  unknown token; this stays so after any further requests and sweeps that do not issue a
  token of the same name. And a second request made right after the first was served,
  before the callback, is always served with the same transfer.
\<close>

theorem download_token_one_shot:
  assumes "download_request s token = (Inr tr, s1)"
  shows "map_of (downloadTokens (download_callback s2 tr)) token = None \<and>
         download_request (download_callback s2 tr) token =
           (Inl (Status404 ''Download link has expired or is invalid.''), download_callback s2 tr) \<and>
         (\<not> list_ex (mints token) evs \<longrightarrow>
            download_request (foldl server_step (download_callback s2 tr) evs) token =
              (Inl (Status404 ''Download link has expired or is invalid.''),
               foldl server_step (download_callback s2 tr) evs)) \<and>
         fst (download_request s1 token) = Inr tr"
proof -
  have gone: "map_of (downloadTokens (download_callback s2 tr)) token = None"
    using download_callback_token [of s2 tr] download_request_tr_token [OF assms] by simp
  have "download_request (foldl server_step (download_callback s2 tr) evs) token =
          (Inl (Status404 ''Download link has expired or is invalid.''),
           foldl server_step (download_callback s2 tr) evs)"
    if "\<not> list_ex (mints token) evs"
    using run_token_absent [OF gone that] by (simp add: download_request_absent)
  with gone download_request_again [OF assms] show ?thesis
    by (simp add: download_request_absent)
qed

text \<open>
  The token of the example is redeemed once; after the transfer, a heartbeat and a sweep,
  the second redemption is refused.
\<close>

theorem download_token_one_shot_witness:
  "fst (download_request issued_server ''dl-5000-7'') =
     Inr \<lparr> tr_token = ''dl-5000-7'', tr_filename = ''processed-2000.mp4'',
           tr_downloadName = ''clip-vidsnip-edited.mp4'', tr_fileData = True \<rparr> \<and>
   \<not> list_ex (mints ''dl-5000-7'') [EvHeartbeat 6000 ''c1'', EvSweep 7000] \<and>
   map_of (downloadTokens (download_callback downloading_server
       \<lparr> tr_token = ''dl-5000-7'', tr_filename = ''processed-2000.mp4'',
         tr_downloadName = ''clip-vidsnip-edited.mp4'', tr_fileData = True \<rparr>)) ''dl-5000-7'' = None \<and>
   fst (download_request (foldl server_step (download_callback downloading_server
       \<lparr> tr_token = ''dl-5000-7'', tr_filename = ''processed-2000.mp4'',
         tr_downloadName = ''clip-vidsnip-edited.mp4'', tr_fileData = True \<rparr>)
       [EvHeartbeat 6000 ''c1'', EvSweep 7000]) ''dl-5000-7'') =
     Inl (Status404 ''Download link has expired or is invalid.'')"
proof -
  let ?tr = "\<lparr> tr_token = ''dl-5000-7'', tr_filename = ''processed-2000.mp4'',
         tr_downloadName = ''clip-vidsnip-edited.mp4'', tr_fileData = True \<rparr>"
  have req: "download_request issued_server ''dl-5000-7'' = (Inr ?tr, downloading_server)"
    by (simp add: downloading_server_def download_request_def issued_server_eq)
  have evs: "\<not> list_ex (mints ''dl-5000-7'') [EvHeartbeat 6000 ''c1'', EvSweep 7000]"
    by simp
  from download_token_one_shot [OF req, of downloading_server "[EvHeartbeat 6000 ''c1'', EvSweep 7000]"]
    req evs
  show ?thesis by simp
qed

text \<open>
  Claim C3, amended. The download endpoint does not look at a token's age; expiry is the
  sweep's work. A token whose age exceeds the retention window when a sweep runs is removed
  by that sweep, and redeeming it afterwards gives the same not-found failure as redeeming
  a token that is in no store. Before the sweep the endpoint redeems it, old as it is,
  when its file is on disk.
\<close>

theorem expired_token_swept_not_found:
  assumes "map_of (downloadTokens s) token = Some data" and "now - created data > maxAge"
    and "map_of (downloadTokens s') other = None"
  shows "download_request (scheduledCleanup now s) token =
           (Inl (Status404 ''Download link has expired or is invalid.''), scheduledCleanup now s) \<and>
         fst (download_request s' other) =
           Inl (Status404 ''Download link has expired or is invalid.'') \<and>
         ((Output, tok_filename data) \<in> disk s \<longrightarrow>
            (\<exists>tr s1. download_request s token = (Inr tr, s1)))"
  using assms
  by (simp add: download_request_absent scheduledCleanup_token_expired)
    (simp add: download_request_def)

text \<open>
  In the example the token is 31 minutes old; after the sweep it is refused like the
  token that was never issued.
\<close>

theorem expired_token_swept_not_found_witness:
  "map_of (downloadTokens issued_server) ''dl-5000-7'' =
     Some \<lparr> tok_filename = ''processed-2000.mp4'', created = 5000, tok_originalName = ''clip'' \<rparr> \<and>
   later - 5000 > maxAge \<and>
   map_of (downloadTokens issued_server) ''dl-1-1'' = None \<and>
   fst (download_request (scheduledCleanup later issued_server) ''dl-5000-7'') =
     Inl (Status404 ''Download link has expired or is invalid.'') \<and>
   fst (download_request issued_server ''dl-1-1'') =
     Inl (Status404 ''Download link has expired or is invalid.'')"
  using expired_token_swept_not_found [OF issued_lookup(1) _ issued_lookup(2), of later]
  by (simp add: issued_lookup later_old)

text \<open>
  Claim C3 as stated fails: with no sweep since it expired, the token that is 31 minutes
  old is still redeemed, while a token never issued is refused.
\<close>

theorem expired_token_counterexample:
  "map_of (downloadTokens issued_server) ''dl-5000-7'' =
     Some \<lparr> tok_filename = ''processed-2000.mp4'', created = 5000, tok_originalName = ''clip'' \<rparr> \<and>
   later - 5000 > maxAge \<and>
   fst (download_request issued_server ''dl-5000-7'') =
     Inr \<lparr> tr_token = ''dl-5000-7'', tr_filename = ''processed-2000.mp4'',
           tr_downloadName = ''clip-vidsnip-edited.mp4'', tr_fileData = True \<rparr> \<and>
   map_of (downloadTokens issued_server) ''dl-1-1'' = None \<and>
   fst (download_request issued_server ''dl-1-1'') =
     Inl (Status404 ''Download link has expired or is invalid.'')"
  by (simp add: issued_lookup later_old download_request_def) (simp add: issued_server_eq)

text \<open>
  Claim C4, amended. A tracked file whose in-use flag is true keeps its tracking entry and
  stays on disk through a sweep and through a session cleanup, whatever its age. A tracked
  file whose in-use flag is false and whose age exceeds the retention window is off the disk
  after the next sweep, unless unlinking it fails with a disk-level error; when the file
  was on disk, its tracking entry is removed with it. A file on disk whose unlink fails is
  on disk and tracked as before after the sweep. A tracking entry whose file is not on
  disk, such as that of an intermediate that was never written, is not removed by the
  sweep, whatever its age.
\<close>

theorem in_use_kept_old_swept:
  assumes e: "map_of (fileTracker s ty) f = Some d"
  shows "(inUse d \<longrightarrow>
            map_of (fileTracker (scheduledCleanup now s) ty) f = Some d \<and>
            ((ty, f) \<in> disk (scheduledCleanup now s)) = ((ty, f) \<in> disk s) \<and>
            map_of (fileTracker (cleanupClientFiles s cid) ty) f = Some d \<and>
            ((ty, f) \<in> disk (cleanupClientFiles s cid)) = ((ty, f) \<in> disk s)) \<and>
         (\<not> inUse d \<and> now - timestamp d > maxAge \<and> (ty, f) \<notin> unlink_throws s \<longrightarrow>
            (ty, f) \<notin> disk (scheduledCleanup now s) \<and>
            ((ty, f) \<in> disk s \<longrightarrow> map_of (fileTracker (scheduledCleanup now s) ty) f = None)) \<and>
         ((ty, f) \<in> disk s \<and> (ty, f) \<in> unlink_throws s \<longrightarrow>
            (ty, f) \<in> disk (scheduledCleanup now s) \<and>
            map_of (fileTracker (scheduledCleanup now s) ty) f = Some d) \<and>
         ((ty, f) \<notin> disk s \<longrightarrow>
            map_of (fileTracker (scheduledCleanup now s) ty) f = Some d)"
proof (intro conjI impI)
  assume u: "inUse d"
  have kept: "map_of (fileTracker t ty) f = Some d \<and> ((ty, f) \<in> disk t) = ((ty, f) \<in> disk s)"
    if "shrinks s t" for t
  proof -
    from e u have iu: "in_use s (ty, f)" by (simp add: in_use_def)
    with shrinks_entry [OF that, of "(ty, f)"] e have "map_of (fileTracker t ty) f = Some d"
      by (auto simp: entry_def)
    moreover have "((ty, f) \<in> disk t) = ((ty, f) \<in> disk s)"
      using shrinks_removed [OF that, of "(ty, f)"] shrinks_disk [OF that] iu by blast
    ultimately show ?thesis ..
  qed
  from kept [OF scheduledCleanup_shrinks]
  show "map_of (fileTracker (scheduledCleanup now s) ty) f = Some d"
    and "((ty, f) \<in> disk (scheduledCleanup now s)) = ((ty, f) \<in> disk s)" by simp_all
  from kept [OF cleanupClientFiles_shrinks]
  show "map_of (fileTracker (cleanupClientFiles s cid) ty) f = Some d"
    and "((ty, f) \<in> disk (cleanupClientFiles s cid)) = ((ty, f) \<in> disk s)" by simp_all
next
  assume a: "\<not> inUse d \<and> now - timestamp d > maxAge \<and> (ty, f) \<notin> unlink_throws s"
  with scheduledCleanup_gone [OF e] show gone: "(ty, f) \<notin> disk (scheduledCleanup now s)" by simp
  assume "(ty, f) \<in> disk s"
  from shrinks_removed [OF scheduledCleanup_shrinks this gone]
  show "map_of (fileTracker (scheduledCleanup now s) ty) f = None" by (simp add: entry_def)
next
  assume "(ty, f) \<in> disk s \<and> (ty, f) \<in> unlink_throws s"
  then have stays: "(ty, f) \<in> disk (scheduledCleanup now s)"
    using shrinks_stuck [OF scheduledCleanup_shrinks] by blast
  then show "(ty, f) \<in> disk (scheduledCleanup now s)" .
  from stays shrinks_entry [OF scheduledCleanup_shrinks, of now s "(ty, f)"] e
  show "map_of (fileTracker (scheduledCleanup now s) ty) f = Some d"
    by (auto simp: entry_def)
next
  assume "(ty, f) \<notin> disk s"
  with shrinks_entry [OF scheduledCleanup_shrinks, of now s "(ty, f)"] e
  show "map_of (fileTracker (scheduledCleanup now s) ty) f = Some d"
    by (auto simp: entry_def)
qed

text \<open>
  In the example the result file is being downloaded and the upload is old: the sweep
  keeps the first and deletes the second. After the run whose second cut failed, the
  entry of the second intermediate, which was never written, is still there after the
  sweep.
\<close>

theorem in_use_kept_old_swept_witness:
  "map_of (fileTracker downloading_server Output) ''processed-2000.mp4'' =
     Some \<lparr> timestamp = 5000, clientId = ''c1'', inUse = True \<rparr> \<and>
   map_of (fileTracker downloading_server Upload) ''up.mp4'' =
     Some \<lparr> timestamp = 1000, clientId = ''c1'', inUse = False \<rparr> \<and>
   later - 1000 > maxAge \<and> (Upload, ''up.mp4'') \<notin> unlink_throws downloading_server \<and>
   map_of (fileTracker (scheduledCleanup later downloading_server) Output) ''processed-2000.mp4'' =
     Some \<lparr> timestamp = 5000, clientId = ''c1'', inUse = True \<rparr> \<and>
   (Output, ''processed-2000.mp4'') \<in> disk (scheduledCleanup later downloading_server) \<and>
   map_of (fileTracker (cleanupClientFiles downloading_server ''c1'') Output) ''processed-2000.mp4'' =
     Some \<lparr> timestamp = 5000, clientId = ''c1'', inUse = True \<rparr> \<and>
   (Output, ''processed-2000.mp4'') \<in> disk (cleanupClientFiles downloading_server ''c1'') \<and>
   (Upload, ''up.mp4'') \<notin> disk (scheduledCleanup later downloading_server) \<and>
   map_of (fileTracker (scheduledCleanup later downloading_server) Upload) ''up.mp4'' = None \<and>
   map_of (fileTracker failed_server Temp) ''temp-1-2000.mp4'' =
     Some \<lparr> timestamp = 2000, clientId = ''c1'', inUse = False \<rparr> \<and>
   (Temp, ''temp-1-2000.mp4'') \<notin> disk failed_server \<and>
   map_of (fileTracker (scheduledCleanup later failed_server) Temp) ''temp-1-2000.mp4'' =
     Some \<lparr> timestamp = 2000, clientId = ''c1'', inUse = False \<rparr>"
  using in_use_kept_old_swept [OF downloading_lookup(3), of later "''c1''"]
    in_use_kept_old_swept [OF downloading_lookup(2), of later "''c1''"]
    in_use_kept_old_swept [OF failed_lookup(1), of later "''c1''"]
  by (simp add: downloading_lookup failed_lookup later_old)

text \<open>
  Claim C4 as stated fails where the disk refuses the unlink: the old upload, not in
  use, is still on disk and still tracked after the sweep.
\<close>

theorem in_use_kept_old_swept_counterexample:
  "map_of (fileTracker stuck_server Upload) ''up.mp4'' =
     Some \<lparr> timestamp = 1000, clientId = ''c1'', inUse = False \<rparr> \<and>
   later - 1000 > maxAge \<and>
   (Upload, ''up.mp4'') \<in> disk (scheduledCleanup later stuck_server) \<and>
   map_of (fileTracker (scheduledCleanup later stuck_server) Upload) ''up.mp4'' =
     Some \<lparr> timestamp = 1000, clientId = ''c1'', inUse = False \<rparr>"
  by (simp add: stuck_server_eq scheduledCleanup_def sweep_tracker_def
      sweep_clients_def sweep_tokens_def cleanupClientFiles_def deleteFile_def maxAge_def
      heartbeatTimeout_def later_def Let_def)

text \<open>
  Claim C5, amended. For a request with a file name and N segments against an uploaded file
  that is on disk: the invocations planned are the N cuts, the i-th for the i-th segment,
  then one concatenation. The invocations a run makes are an initial part of that
  sequence; a concatenation is only invoked after all N cuts, each of which succeeded; a
  token is only issued, and the token store only changed, after all N cuts and the
  concatenation were made and succeeded. When every invocation succeeds and the list
  file can be written, the run makes exactly the N cuts in order, then the concatenation,
  and issues the token bound to the result file.
\<close>

theorem pipeline_order:
  assumes "req_filename req \<noteq> []" and "req_segments req \<noteq> []"
    and "(Upload, req_filename req) \<in> disk s"
    and "process s e req = (resp, s', calls)"
  shows "length (cut_calls e req) = length (req_segments req) \<and>
         (\<forall>i<length (req_segments req).
            cut_calls e req ! i =
              Cut (Upload, req_filename req) (seg_start (req_segments req ! i))
                (seg_end (req_segments req ! i)) (Temp, tempFile e i)) \<and>
         calls = take (length calls) (cut_calls e req @ [concat_call e]) \<and>
         (list_ex is_concat calls \<longrightarrow>
            calls = cut_calls e req @ [concat_call e] \<and> list_all (encoder_ok e) (cut_calls e req)) \<and>
         ((\<exists>token. resp = Inr token) \<longrightarrow>
            calls = cut_calls e req @ [concat_call e] \<and> list_all (encoder_ok e) calls) \<and>
         (downloadTokens s' \<noteq> downloadTokens s \<longrightarrow> (\<exists>token. resp = Inr token)) \<and>
         (list_all (encoder_ok e) (cut_calls e req @ [concat_call e]) \<and> \<not> write_throws e \<longrightarrow>
            calls = cut_calls e req @ [concat_call e] \<and> resp = Inr (new_token e) \<and>
            (\<exists>n. map_of (downloadTokens s') (new_token e) =
                   Some \<lparr> tok_filename = outputFilename e, created = now_done e,
                          tok_originalName = n \<rparr>))"
proof -
  note pv = process_valid [OF assms]
  have nc: "\<not> list_ex is_concat (performed (encoder_ok e) (cut_calls e req))"
    using performed_subset [of "encoder_ok e" "cut_calls e req"] cut_calls_no_concat [of e req]
    by (auto simp: list_ex_iff)
  have tk: "take (length calls) (cut_calls e req @ [concat_call e]) = calls"
  proof (cases "list_all (encoder_ok e) (cut_calls e req)")
    case True
    then show ?thesis by (simp add: pv(1))
  next
    case False
    then have "calls = performed (encoder_ok e) (cut_calls e req)" by (simp add: pv(1))
    then show ?thesis by (simp only: performed_take_append)
  qed
  have c1: "list_ex is_concat calls \<longrightarrow>
            calls = cut_calls e req @ [concat_call e] \<and> list_all (encoder_ok e) (cut_calls e req)"
    using nc cut_calls_no_concat [of e req] by (auto simp: pv(1) split: if_splits)
  have c2: "(\<exists>token. resp = Inr token) \<longrightarrow>
            calls = cut_calls e req @ [concat_call e] \<and> list_all (encoder_ok e) calls"
    by (auto simp: pv(1,2) pipeline_ok_def split: if_splits)
  have c3: "downloadTokens s' \<noteq> downloadTokens s \<longrightarrow> (\<exists>token. resp = Inr token)"
    using pv(3) by (auto simp: pv(2))
  have c4: "list_all (encoder_ok e) (cut_calls e req @ [concat_call e]) \<and> \<not> write_throws e \<longrightarrow>
            calls = cut_calls e req @ [concat_call e] \<and> resp = Inr (new_token e) \<and>
            (\<exists>n. map_of (downloadTokens s') (new_token e) =
                   Some \<lparr> tok_filename = outputFilename e, created = now_done e,
                          tok_originalName = n \<rparr>)"
    using pv(4) by (auto simp: pv(1,2) pipeline_ok_def)
  have c0: "calls = take (length calls) (cut_calls e req @ [concat_call e])"
    by (simp only: tk)
  have n: "\<forall>i<length (req_segments req).
            cut_calls e req ! i =
              Cut (Upload, req_filename req) (seg_start (req_segments req ! i))
                (seg_end (req_segments req ! i)) (Temp, tempFile e i)"
    by (simp add: nth_cut_calls)
  from length_cut_calls [of e req] n c0 c1 c2 c3 c4 show ?thesis by blast
qed

text \<open>
  The request for the segments [0, 2] and [5, 7], with an encoder that succeeds: two
  cuts, one concatenation, then the token.
\<close>

theorem pipeline_order_witness:
  "req_filename two_segments \<noteq> [] \<and> req_segments two_segments \<noteq> [] \<and>
   (Upload, req_filename two_segments) \<in> disk uploaded_server \<and>
   list_all (encoder_ok (run_env (\<lambda>c. True)))
     (cut_calls (run_env (\<lambda>c. True)) two_segments @ [concat_call (run_env (\<lambda>c. True))]) \<and>
   \<not> write_throws (run_env (\<lambda>c. True)) \<and>
   snd (snd (process uploaded_server (run_env (\<lambda>c. True)) two_segments)) =
     [Cut (Upload, ''up.mp4'') 0 2 (Temp, ''temp-0-2000.mp4''),
      Cut (Upload, ''up.mp4'') 5 7 (Temp, ''temp-1-2000.mp4''),
      Concat (Temp, ''list-3000.txt'') (Output, ''processed-2000.mp4'')] \<and>
   fst (process uploaded_server (run_env (\<lambda>c. True)) two_segments) = Inr ''dl-5000-7''"
proof -
  let ?e = "run_env (\<lambda>c. True)"
  let ?p = "process uploaded_server ?e two_segments"
  have p: "?p = (fst ?p, fst (snd ?p), snd (snd ?p))" by simp
  have ok: "list_all (encoder_ok ?e) (cut_calls ?e two_segments @ [concat_call ?e]) \<and>
            \<not> write_throws ?e"
    by (simp add: list_all_iff)
  from pipeline_order [OF uploaded_valid(1-3) p] ok
  have "snd (snd ?p) = cut_calls ?e two_segments @ [concat_call ?e]"
    and "fst ?p = Inr (new_token ?e)"
    by blast+
  then have "snd (snd ?p) =
     [Cut (Upload, ''up.mp4'') 0 2 (Temp, ''temp-0-2000.mp4''),
      Cut (Upload, ''up.mp4'') 5 7 (Temp, ''temp-1-2000.mp4''),
      Concat (Temp, ''list-3000.txt'') (Output, ''processed-2000.mp4'')]"
    and "fst ?p = Inr ''dl-5000-7''"
    by (simp_all only: example_calls example_names append.simps)
  with ok uploaded_valid(1-3) show ?thesis by blast
qed

text \<open>
  Claim C5 as stated fails when an invocation fails: of three segments only two cuts
  are invoked, and no concatenation.
\<close>

theorem pipeline_order_counterexample:
  "req_filename three_segments \<noteq> [] \<and> req_segments three_segments \<noteq> [] \<and>
   (Upload, req_filename three_segments) \<in> disk uploaded_server \<and>
   length (req_segments three_segments) = 3 \<and>
   snd (snd (process uploaded_server (run_env second_cut_fails) three_segments)) =
     [Cut (Upload, ''up.mp4'') 0 2 (Temp, ''temp-0-2000.mp4''),
      Cut (Upload, ''up.mp4'') 5 7 (Temp, ''temp-1-2000.mp4'')] \<and>
   fst (process uploaded_server (run_env second_cut_fails) three_segments) =
     Inl (Status500 ''Video processing failed'')"
proof -
  let ?p = "process uploaded_server (run_env second_cut_fails) three_segments"
  have p: "?p = (fst ?p, fst (snd ?p), snd (snd ?p))" by simp
  have "snd (snd ?p) =
     [Cut (Upload, ''up.mp4'') 0 2 (Temp, ''temp-0-2000.mp4''),
      Cut (Upload, ''up.mp4'') 5 7 (Temp, ''temp-1-2000.mp4'')]"
    using process_valid(1) [OF uploaded_valid(4-6) p] by (simp add: example_calls)
  moreover have "fst ?p = Inl (Status500 ''Video processing failed'')"
    using process_valid(2) [OF uploaded_valid(4-6) p] by (simp add: example_calls pipeline_ok_def)
  moreover have "length (req_segments three_segments) = 3"
    by (simp add: three_segments_def)
  ultimately show ?thesis using uploaded_valid(4-6) by blast
qed




text \<open>
  Claim C7, amended. Tracking a file twice with the same arguments leaves the trackers,
  the disk and the token store as tracking it once at the later time does; the session
  differs in one point only: its file list holds one more entry for the file.
\<close>

theorem trackFile_twice:
  "fileTracker (trackFile (trackFile s t1 f ty cid) t2 f ty cid) = fileTracker (trackFile s t2 f ty cid) \<and>
   disk (trackFile (trackFile s t1 f ty cid) t2 f ty cid) = disk (trackFile s t2 f ty cid) \<and>
   downloadTokens (trackFile (trackFile s t1 f ty cid) t2 f ty cid) =
     downloadTokens (trackFile s t2 f ty cid) \<and>
   (\<exists>c. map_of (clients (trackFile s t2 f ty cid)) cid = Some c \<and>
        clients (trackFile (trackFile s t1 f ty cid) t2 f ty cid) =
          AList.update cid (c\<lparr> files := files c @ [(f, ty)] \<rparr>) (clients (trackFile s t2 f ty cid)))"
proof (cases "map_of (clients s) cid")
  case None
  then show ?thesis
    by (simp add: trackFile_fileTracker trackFile_clients update_conv')
next
  case (Some a)
  then show ?thesis
    by (cases a) (simp add: trackFile_fileTracker trackFile_clients update_conv')
qed

text \<open>
  Claim C7 as stated fails: after the second call the session's file list names the file
  twice.
\<close>

theorem trackFile_twice_counterexample:
  "map_option files (map_of (clients (trackFile empty_server 1000 ''up.mp4'' Upload ''c1'')) ''c1'') =
     Some [(''up.mp4'', Upload)] \<and>
   map_option files (map_of (clients (trackFile (trackFile empty_server 1000 ''up.mp4'' Upload ''c1'')
       1000 ''up.mp4'' Upload ''c1'')) ''c1'') =
     Some [(''up.mp4'', Upload), (''up.mp4'', Upload)] \<and>
   clients (trackFile (trackFile empty_server 1000 ''up.mp4'' Upload ''c1'') 1000 ''up.mp4'' Upload ''c1'')
     \<noteq> clients (trackFile empty_server 1000 ''up.mp4'' Upload ''c1'')"
  by (simp add: trackFile_def empty_server_def Let_def)

text \<open>
  Claim C8, amended. Registering a file sets the owning session's last activity to the
  time of the call. Deleting a file does not touch the session map, so every session's
  last activity stays what it was.
\<close>

theorem trackFile_sets_lastActivity:
  "(\<exists>c. map_of (clients (trackFile s now f ty cid)) cid = Some c \<and> lastActivity c = now) \<and>
   clients (snd (deleteFile s f' ty')) = clients s"
  by (cases "map_of (clients s) cid") (simp_all add: trackFile_clients update_conv')

text \<open>
  Claim C8 as stated fails: the upload registered at time 1000 is deleted, at whatever
  later time, and the session's last activity is still 1000.
\<close>

theorem deleteFile_lastActivity_counterexample:
  "map_of (fileTracker uploaded_server Upload) ''up.mp4'' =
     Some \<lparr> timestamp = 1000, clientId = ''c1'', inUse = False \<rparr> \<and>
   map_option lastActivity (map_of (clients uploaded_server) ''c1'') = Some 1000 \<and>
   fst (deleteFile uploaded_server ''up.mp4'' Upload) \<and>
   (Upload, ''up.mp4'') \<notin> disk (snd (deleteFile uploaded_server ''up.mp4'' Upload)) \<and>
   map_option lastActivity (map_of (clients (snd (deleteFile uploaded_server ''up.mp4'' Upload))) ''c1'')
     = Some 1000"
  by (simp add: uploaded_server_eq deleteFile_def)

text \<open>
  Claim C9, amended. A session whose last activity is older than the heartbeat timeout
  when a sweep runs is out of the session map afterwards. Of the files on its list, one
  whose in-use flag is true keeps its tracking entry and stays on disk as it was; any
  other is off the disk afterwards, and its tracking entry removed with it, unless
  unlinking it fails with a disk-level error: a file on disk whose unlink fails is still
  on disk afterwards.
\<close>

theorem stale_session_collected:
  assumes c: "map_of (clients s) cid = Some c" and stale: "now - lastActivity c > heartbeatTimeout"
  shows "map_of (clients (scheduledCleanup now s)) cid = None \<and>
         (\<forall>(f, ty)\<in>set (files c).
            (in_use s (ty, f) \<longrightarrow>
               map_of (fileTracker (scheduledCleanup now s) ty) f = map_of (fileTracker s ty) f \<and>
               ((ty, f) \<in> disk (scheduledCleanup now s)) = ((ty, f) \<in> disk s)) \<and>
            (\<not> in_use s (ty, f) \<and> (ty, f) \<notin> unlink_throws s \<longrightarrow>
               (ty, f) \<notin> disk (scheduledCleanup now s) \<and>
               ((ty, f) \<in> disk s \<longrightarrow> map_of (fileTracker (scheduledCleanup now s) ty) f = None)) \<and>
            ((ty, f) \<in> disk s \<and> (ty, f) \<in> unlink_throws s \<longrightarrow>
               (ty, f) \<in> disk (scheduledCleanup now s)))"
proof (intro conjI ballI)
  let ?c = "sweep_tracker now Temp (sweep_tracker now Output (sweep_tracker now Upload s))"
  have sc: "shrinks s ?c"
    by (blast intro: shrinks_trans [OF shrinks_trans] sweep_tracker_shrinks)
  have cc: "map_of (clients ?c) cid = Some c" using c by simp
  show "map_of (clients (scheduledCleanup now s)) cid = None"
    using sweep_clients_removed [OF cc stale] by (simp add: scheduledCleanup_def)
  fix x assume x: "x \<in> set (files c)"
  obtain f ty where xf: "x = (f, ty)" by (cases x)
  have "in_use s (ty, f) \<longrightarrow>
          map_of (fileTracker (scheduledCleanup now s) ty) f = map_of (fileTracker s ty) f \<and>
          ((ty, f) \<in> disk (scheduledCleanup now s)) = ((ty, f) \<in> disk s)"
  proof
    assume iu: "in_use s (ty, f)"
    with shrinks_entry [OF scheduledCleanup_shrinks, of now s "(ty, f)"]
    have "map_of (fileTracker (scheduledCleanup now s) ty) f = map_of (fileTracker s ty) f"
      by (auto simp: entry_def)
    moreover have "((ty, f) \<in> disk (scheduledCleanup now s)) = ((ty, f) \<in> disk s)"
      using shrinks_removed [OF scheduledCleanup_shrinks, of "(ty, f)" s now]
        shrinks_disk [OF scheduledCleanup_shrinks, of now s] iu by blast
    ultimately show "map_of (fileTracker (scheduledCleanup now s) ty) f = map_of (fileTracker s ty) f \<and>
          ((ty, f) \<in> disk (scheduledCleanup now s)) = ((ty, f) \<in> disk s)" ..
  qed
  moreover have "\<not> in_use s (ty, f) \<and> (ty, f) \<notin> unlink_throws s \<longrightarrow>
          (ty, f) \<notin> disk (scheduledCleanup now s) \<and>
          ((ty, f) \<in> disk s \<longrightarrow> map_of (fileTracker (scheduledCleanup now s) ty) f = None)"
  proof (intro impI conjI)
    assume a: "\<not> in_use s (ty, f) \<and> (ty, f) \<notin> unlink_throws s"
    with sweep_clients_gone [OF sc cc stale, of f ty] x xf
    show gone: "(ty, f) \<notin> disk (scheduledCleanup now s)"
      by (simp add: scheduledCleanup_def)
    assume "(ty, f) \<in> disk s"
    from shrinks_removed [OF scheduledCleanup_shrinks this gone]
    show "map_of (fileTracker (scheduledCleanup now s) ty) f = None" by (simp add: entry_def)
  qed
  moreover have "(ty, f) \<in> disk s \<and> (ty, f) \<in> unlink_throws s \<longrightarrow>
          (ty, f) \<in> disk (scheduledCleanup now s)"
    using shrinks_stuck [OF scheduledCleanup_shrinks] by blast
  ultimately show "case x of (f, ty) \<Rightarrow>
            (in_use s (ty, f) \<longrightarrow>
               map_of (fileTracker (scheduledCleanup now s) ty) f = map_of (fileTracker s ty) f \<and>
               ((ty, f) \<in> disk (scheduledCleanup now s)) = ((ty, f) \<in> disk s)) \<and>
            (\<not> in_use s (ty, f) \<and> (ty, f) \<notin> unlink_throws s \<longrightarrow>
               (ty, f) \<notin> disk (scheduledCleanup now s) \<and>
               ((ty, f) \<in> disk s \<longrightarrow> map_of (fileTracker (scheduledCleanup now s) ty) f = None)) \<and>
            ((ty, f) \<in> disk s \<and> (ty, f) \<in> unlink_throws s \<longrightarrow>
               (ty, f) \<in> disk (scheduledCleanup now s))"
    by (simp add: xf)
qed

text \<open>
  In the example the session is stale, its upload is deleted and its result file,
  being downloaded, is kept.
\<close>

theorem stale_session_collected_witness:
  "map_of (clients downloading_server) ''c1'' =
     Some \<lparr> lastActivity = 5000, files = [(''up.mp4'', Upload), (''temp-0-2000.mp4'', Temp), (''temp-1-2000.mp4'', Temp),
                     (''list-3000.txt'', Temp), (''processed-2000.mp4'', Output)],
            originalName = Some ''clip.mp4'' \<rparr> \<and>
   later - 5000 > heartbeatTimeout \<and>
   in_use downloading_server (Output, ''processed-2000.mp4'') \<and>
   \<not> in_use downloading_server (Upload, ''up.mp4'') \<and>
   (Upload, ''up.mp4'') \<notin> unlink_throws downloading_server \<and>
   map_of (clients (scheduledCleanup later downloading_server)) ''c1'' = None \<and>
   (Upload, ''up.mp4'') \<notin> disk (scheduledCleanup later downloading_server) \<and>
   map_of (fileTracker (scheduledCleanup later downloading_server) Upload) ''up.mp4'' = None \<and>
   (Output, ''processed-2000.mp4'') \<in> disk (scheduledCleanup later downloading_server) \<and>
   map_of (fileTracker (scheduledCleanup later downloading_server) Output) ''processed-2000.mp4'' =
     Some \<lparr> timestamp = 5000, clientId = ''c1'', inUse = True \<rparr>"
  using stale_session_collected [OF downloading_lookup(1), of later]
  by (simp add: downloading_lookup later_old in_use_def)

text \<open>
  Claim C9 as stated fails where the disk refuses the unlink: the session is removed
  and its upload, not in use, is still on disk.
\<close>

theorem stale_session_collected_counterexample:
  "map_of (clients stuck_server) ''c1'' =
     Some \<lparr> lastActivity = 5000, files = [(''up.mp4'', Upload), (''temp-0-2000.mp4'', Temp), (''temp-1-2000.mp4'', Temp),
                     (''list-3000.txt'', Temp), (''processed-2000.mp4'', Output)],
            originalName = Some ''clip.mp4'' \<rparr> \<and>
   later - 5000 > heartbeatTimeout \<and>
   \<not> in_use stuck_server (Upload, ''up.mp4'') \<and>
   map_of (clients (scheduledCleanup later stuck_server)) ''c1'' = None \<and>
   (Upload, ''up.mp4'') \<in> disk (scheduledCleanup later stuck_server)"
  by (simp add: stuck_server_eq scheduledCleanup_def sweep_tracker_def
      sweep_clients_def sweep_tokens_def cleanupClientFiles_def deleteFile_def maxAge_def
      heartbeatTimeout_def later_def in_use_def Let_def)

text \<open>
  Claim C10. When the token is in the store and its result file is not on disk, the
  download endpoint answers with the file-not-found failure and changes nothing: the token
  is still in the store, and once the file is on disk the same token is redeemed.
\<close>

theorem missing_file_keeps_token:
  assumes "map_of (downloadTokens s) token = Some data" and "(Output, tok_filename data) \<notin> disk s"
  shows "download_request s token = (Inl (Status404 ''File not found on server.''), s) \<and>
         map_of (downloadTokens (snd (download_request s token))) token = Some data \<and>
         (\<exists>tr s'. download_request (s\<lparr> disk := insert (Output, tok_filename data) (disk s) \<rparr>) token
                    = (Inr tr, s'))"
  using assms by (simp add: download_request_def)

text \<open>
  In the example the result file is missing from the disk.
\<close>

theorem missing_file_keeps_token_witness:
  "map_of (downloadTokens (issued_server\<lparr> disk := {} \<rparr>)) ''dl-5000-7'' =
     Some \<lparr> tok_filename = ''processed-2000.mp4'', created = 5000, tok_originalName = ''clip'' \<rparr> \<and>
   (Output, ''processed-2000.mp4'') \<notin> disk (issued_server\<lparr> disk := {} \<rparr>) \<and>
   download_request (issued_server\<lparr> disk := {} \<rparr>) ''dl-5000-7'' =
     (Inl (Status404 ''File not found on server.''), issued_server\<lparr> disk := {} \<rparr>) \<and>
   (\<exists>tr s'. download_request (issued_server\<lparr> disk := {(Output, ''processed-2000.mp4'')} \<rparr>)
               ''dl-5000-7'' = (Inr tr, s'))"
  using missing_file_keeps_token [of "issued_server\<lparr> disk := {} \<rparr>" "''dl-5000-7''"
      "\<lparr> tok_filename = ''processed-2000.mp4'', created = 5000, tok_originalName = ''clip'' \<rparr>"]
  by (simp add: issued_lookup)

end
